theory Spec2Isabelle
  imports Main "HOL-Library.Word" "HOL-Library.Signed_Division"
begin

unbundle bit_operations_syntax

section \<open>Bytes, errors and slices\<close>

text \<open>
  A Go \<open>byte\<close> is an 8-bit word. A Go panic and a returned \<open>error\<close> are values of the
  type \<open>error\<close>: \<open>RuntimePanic\<close> is a panic of the Go runtime (index or slice bound out
  of range, negative length, division by zero), \<open>Panic s\<close> is \<open>panic(s)\<close> and
  \<open>Error s\<close> is a returned \<open>fmt.Errorf(s)\<close>.
\<close>

type_synonym byte = "8 word"

datatype error = RuntimePanic | Panic string | Error string

text \<open>\<open>row[bi/8] & (1 << (7 - bi&7)) != 0\<close>, for an unsigned \<open>bi\<close>.\<close>

definition row_has :: "byte list \<Rightarrow> nat \<Rightarrow> error + bool" where
  "row_has row bi =
     (if bi div 8 < length row
      then Inr (row ! (bi div 8) AND push_bit (7 - bi mod 8) 1 \<noteq> 0)
      else Inl RuntimePanic)"

text \<open>\<open>(b.B[bi/8] >> (7 - bi&7)) & 1\<close>.\<close>

definition get_bit :: "byte list \<Rightarrow> nat \<Rightarrow> error + byte" where
  "get_bit bs bi =
     (if bi div 8 < length bs
      then Inr (drop_bit (7 - bi mod 8) (bs ! (bi div 8)) AND 1)
      else Inl RuntimePanic)"

text \<open>\<open>for k := range row { row[k] ^= src[k] }\<close>: the new contents of \<open>row\<close>.\<close>

definition xor_into :: "byte list \<Rightarrow> byte list \<Rightarrow> error + byte list" where
  "xor_into row src =
     (if length row \<le> length src then Inr (map2 (XOR) row src) else Inl RuntimePanic)"

text \<open>\<open>for j, v := range src { dst[j] ^= v }\<close>: the new contents of \<open>dst\<close>.\<close>

definition xor_from :: "byte list \<Rightarrow> byte list \<Rightarrow> error + byte list" where
  "xor_from dst src =
     (if length src \<le> length dst
      then Inr (map2 (XOR) (take (length src) dst) src @ drop (length src) dst)
      else Inl RuntimePanic)"

text \<open>\<open>copy(dst, src)\<close>: the new contents of \<open>dst\<close>; it copies \<open>min\<close> of the two lengths.\<close>

definition copy_bytes :: "byte list \<Rightarrow> byte list \<Rightarrow> byte list" where
  "copy_bytes dst src = take (length dst) src @ drop (length src) dst"

text \<open>Row \<open>row\<close> has a 1 at column \<open>c\<close>: bit \<open>7 - c mod 8\<close> of byte \<open>c div 8\<close>.\<close>

definition has :: "byte list \<Rightarrow> nat \<Rightarrow> bool" where
  "has row c \<longleftrightarrow> c div 8 < length row \<and> bit (row ! (c div 8)) (7 - c mod 8)"

section \<open>The Reed-Solomon encoder\<close>

text \<open>
  Modelled from the spec: package \<open>gf256\<close> (type \<open>RSEncoder\<close>, method \<open>ECC\<close>) is not
  among the sources. An encoder is the function from the data bytes to the check
  bytes ("pure function of (data, nc)"); \<open>ECC rs dat chk\<close> is the call
  \<open>rs.ECC(dat, chk)\<close>, which fills the front of \<open>chk\<close> and gives its new contents.
\<close>

type_synonym RSEncoder = "byte list \<Rightarrow> byte list"

definition ECC :: "RSEncoder \<Rightarrow> byte list \<Rightarrow> byte list \<Rightarrow> error + byte list" where
  "ECC rs dat chk =
     (if length chk < length (rs dat) then Inl (Panic ''gf256: invalid check byte length'')
      else Inr (rs dat @ drop (length (rs dat)) chk))"

text \<open>
  Modelled from the spec (4.1): the encoder produces \<open>nc\<close> check bytes and is "linear
  over GF(2) as a map from data bits to check bits".
\<close>

definition linear_rs :: "RSEncoder \<Rightarrow> nat \<Rightarrow> bool" where
  "linear_rs rs nc \<longleftrightarrow>
     (\<forall>d. length (rs d) = nc) \<and>
     (\<forall>d e. length d = length e \<longrightarrow> rs (map2 (XOR) d e) = map2 (XOR) (rs d) (rs e))"

text \<open>
  Modelled from the spec (4.1): the encoder of QR codes. The field GF(256) has the
  polynomial \<open>x^8 + x^4 + x^3 + x^2 + 1\<close> and the primitive element 2; the generator
  polynomial of degree \<open>c\<close> has the roots \<open>2^0, ..., 2^(c-1)\<close>; the check bytes are the
  remainder of the data, shifted by \<open>c\<close> places, on division by the generator.
  \<open>gf_double\<close> multiplies by the primitive element, \<open>gf_mul\<close> is the product of the
  field, \<open>gf_gen c\<close> lists the coefficients of the generator below the leading one,
  highest first, and \<open>gf_step\<close> divides one more data byte into the remainder.
\<close>

definition gf_double :: "byte \<Rightarrow> byte" where
  "gf_double a = (if bit a 7 then push_bit 1 a XOR 0x1D else push_bit 1 a)"

primrec gf_mul_bits :: "nat \<Rightarrow> byte \<Rightarrow> byte \<Rightarrow> byte" where
  "gf_mul_bits 0 a b = 0"
| "gf_mul_bits (Suc k) a b =
     (if bit b 0 then a else 0) XOR gf_mul_bits k (gf_double a) (drop_bit 1 b)"

definition gf_mul :: "byte \<Rightarrow> byte \<Rightarrow> byte" where
  "gf_mul a b = gf_mul_bits 8 a b"

primrec gf_exp2 :: "nat \<Rightarrow> byte" where
  "gf_exp2 0 = 1"
| "gf_exp2 (Suc k) = gf_double (gf_exp2 k)"

primrec gf_gen :: "nat \<Rightarrow> byte list" where
  "gf_gen 0 = []"
| "gf_gen (Suc k) =
     map2 (XOR) (gf_gen k @ [0]) (map (\<lambda>g. gf_mul g (gf_exp2 k)) (1 # gf_gen k))"

fun gf_step :: "byte list \<Rightarrow> byte list \<Rightarrow> byte \<Rightarrow> byte list" where
  "gf_step gen [] d = []"
| "gf_step gen (r # reg) d = map2 (XOR) (reg @ [0]) (map (\<lambda>g. gf_mul g (d XOR r)) gen)"

definition rs_qr :: "nat \<Rightarrow> RSEncoder" where
  "rs_qr c dat = foldl (gf_step (gf_gen c)) (replicate c 0) dat"

section \<open>The bit block\<close>

text \<open>
  \<open>type BitBlock struct\<close>. The slice \<open>b.M\<close> has a length and a capacity over one array
  of rows: \<open>M\<close> holds the rows \<open>b.M[0:len(b.M)]\<close> (the active rows) and \<open>Mret\<close> the
  rows \<open>b.M[len(b.M):cap(b.M)]\<close> (the rows set aside). \<open>bdata\<close> and \<open>cdata\<close> hold
  the contents of the caller's slices.
\<close>

record BitBlock =
  DataBytes :: nat
  CheckBytes :: nat
  B :: "byte list"
  M :: "byte list list"
  Mret :: "byte list list"
  Tmp :: "byte list"
  RS :: RSEncoder
  bdata :: "byte list"
  cdata :: "byte list"

text \<open>Sequencing of steps that may panic or fail: the first failure ends the run.\<close>

definition bindE :: "error + 'a \<Rightarrow> ('a \<Rightarrow> error + 'b) \<Rightarrow> error + 'b" where
  "bindE m f = (case m of Inl e \<Rightarrow> Inl e | Inr x \<Rightarrow> f x)"

text \<open>\<open>func (b *BitBlock) check()\<close>.\<close>

definition check :: "BitBlock \<Rightarrow> error + BitBlock" where
  "check b =
     (if length (B b) < DataBytes b then Inl RuntimePanic
      else bindE (ECC (RS b) (take (DataBytes b) (B b)) (Tmp b)) (\<lambda>t.
             if drop (DataBytes b) (B b) = t then Inr (b\<lparr>Tmp := t\<rparr>)
             else Inl (Panic ''mismatch'')))"

text \<open>The row \<open>i\<close> that \<open>newBlock\<close> builds: a single data bit and its check bytes.\<close>

definition unit_row :: "RSEncoder \<Rightarrow> nat \<Rightarrow> nat \<Rightarrow> nat \<Rightarrow> error + byte list" where
  "unit_row rs nd nc i =
     (let row = (replicate (nd + nc) 0)[i div 8 := push_bit (7 - i mod 8) 1] in
      bindE (ECC rs (take nd row) (drop nd row)) (\<lambda>c. Inr (take nd row @ c)))"

fun unit_rows :: "RSEncoder \<Rightarrow> nat \<Rightarrow> nat \<Rightarrow> nat list \<Rightarrow> error + byte list list" where
  "unit_rows rs nd nc [] = Inr []"
| "unit_rows rs nd nc (i # is) =
     bindE (unit_row rs nd nc i) (\<lambda>row.
     bindE (unit_rows rs nd nc is) (\<lambda>rows. Inr (row # rows)))"

text \<open>\<open>func newBlock(nd, nc int, rs *gf256.RSEncoder, dat, cdata []byte) *BitBlock\<close>.\<close>

definition newBlock ::
  "int \<Rightarrow> int \<Rightarrow> RSEncoder \<Rightarrow> byte list \<Rightarrow> byte list \<Rightarrow> error + BitBlock" where
  "newBlock nd nc rs dat cdat =
     (if nd < 0 \<or> nc < 0 then Inl RuntimePanic
      else
        let b0 = \<lparr>DataBytes = nat nd, CheckBytes = nat nc,
                  B = copy_bytes (replicate (nat nd + nat nc) 0) dat,
                  M = [], Mret = [], Tmp = replicate (nat nc) 0, RS = rs,
                  bdata = dat, cdata = cdat\<rparr>
        in bindE (ECC rs (take (nat nd) (B b0)) (drop (nat nd) (B b0))) (\<lambda>c.
           bindE (check (b0\<lparr>B := take (nat nd) (B b0) @ c\<rparr>)) (\<lambda>b1.
             if Tmp b1 \<noteq> cdat then Inl (Panic ''cdata'')
             else bindE (unit_rows rs (nat nd) (nat nc) [0 ..< nat nd * 8]) (\<lambda>rows.
                    Inr (b1\<lparr>M := rows\<rparr>)))))"

text \<open>
  \<open>func (b *BitBlock) reset(bi uint, bval byte)\<close>. \<open>reset_rows\<close> is the loop over the
  rows set aside, \<open>b.M[len(b.M):cap(b.M)]\<close>.
\<close>

fun reset_rows :: "BitBlock \<Rightarrow> nat \<Rightarrow> byte list list \<Rightarrow> error + BitBlock" where
  "reset_rows b bi [] = Inl (Panic ''reset of unset bit'')"
| "reset_rows b bi (row # rows) =
     bindE (row_has row bi) (\<lambda>h.
       if h then bindE (xor_from (B b) row) (\<lambda>B'. Inr (b\<lparr>B := B'\<rparr>))
       else reset_rows b bi rows)"

definition reset :: "BitBlock \<Rightarrow> nat \<Rightarrow> byte \<Rightarrow> error + BitBlock" where
  "reset b bi bval =
     bindE (get_bit (B b) bi) (\<lambda>cur.
       if cur = bval then Inr b else reset_rows b bi (Mret b))"

text \<open>
  \<open>func (b *BitBlock) canSet(bi uint, bval byte) bool\<close>. \<open>canSet_scan\<close> is its first
  loop, over the active rows \<open>m\<close> from index \<open>j\<close> on: the first row with the bit is
  swapped to the front, every later row with the bit has the front row added.
\<close>

function canSet_scan ::
  "nat \<Rightarrow> bool \<Rightarrow> byte list list \<Rightarrow> nat \<Rightarrow> error + (bool \<times> byte list list)" where
  "canSet_scan bi found m j =
     (if j < length m then
        bindE (row_has (m ! j) bi) (\<lambda>h.
          if \<not> h then canSet_scan bi found m (j + 1)
          else if \<not> found
          then canSet_scan bi True (if j \<noteq> 0 then m[0 := m ! j, j := m ! 0] else m) (j + 1)
          else bindE (xor_into (m ! j) (m ! 0)) (\<lambda>row.
                 canSet_scan bi found (m[j := row]) (j + 1)))
      else Inr (found, m))"
  by pat_completeness auto
termination
  by (relation "measure (\<lambda>(bi, found, m, j). length m - j)") auto

text \<open>The second loop of \<open>canSet\<close>, over the rows set aside.\<close>

fun canSet_saved :: "nat \<Rightarrow> byte list \<Rightarrow> byte list list \<Rightarrow> error + byte list list" where
  "canSet_saved bi targ [] = Inr []"
| "canSet_saved bi targ (row # rows) =
     bindE (row_has row bi) (\<lambda>h.
     bindE (if h then xor_into row targ else Inr row) (\<lambda>row'.
     bindE (canSet_saved bi targ rows) (\<lambda>rest. Inr (row' # rest))))"

text \<open>The last loop of \<open>canSet\<close>: \<open>panic("did not reduce")\<close>.\<close>

fun canSet_reduced :: "nat \<Rightarrow> byte list list \<Rightarrow> error + unit" where
  "canSet_reduced bi [] = Inr ()"
| "canSet_reduced bi (row # rows) =
     bindE (row_has row bi) (\<lambda>h.
       if h then Inl (Panic ''did not reduce'') else canSet_reduced bi rows)"

definition canSet :: "BitBlock \<Rightarrow> nat \<Rightarrow> byte \<Rightarrow> error + (bool \<times> BitBlock)" where
  "canSet b bi bval =
     bindE (canSet_scan bi False (M b) 0) (\<lambda>(found, m).
       if \<not> found then Inr (False, b\<lparr>M := m\<rparr>)
       else
         let targ = m ! 0 in
         bindE (canSet_saved bi targ (Mret b)) (\<lambda>saved.
         bindE (get_bit (B b) bi) (\<lambda>cur.
         bindE (if cur \<noteq> bval then xor_from (B b) targ else Inr (B b)) (\<lambda>B'.
         bindE (check (b\<lparr>B := B', M := m, Mret := saved\<rparr>)) (\<lambda>b1.
           let n = length m - 1;
               m' = m[0 := m ! n, n := m ! 0];
               b2 = b1\<lparr>M := take n m', Mret := drop n m' @ saved\<rparr>
           in bindE (canSet_reduced bi (M b2)) (\<lambda>u. Inr (True, b2)))))))"

text \<open>\<open>func (b *BitBlock) copyOut()\<close>.\<close>

definition copyOut :: "BitBlock \<Rightarrow> error + BitBlock" where
  "copyOut b =
     bindE (check b) (\<lambda>b1.
       Inr (b1\<lparr>bdata := copy_bytes (bdata b1) (take (DataBytes b1) (B b1)),
               cdata := copy_bytes (cdata b1) (drop (DataBytes b1) (B b1))\<rparr>))"


text \<open>
  The ECC closure of a block, \<open>ECC(B[:nd]) = B[nd:]\<close>; a codeword of \<open>n\<close> data and
  \<open>c\<close> check bytes; and the states of a block that the program can reach: the
  fresh block of \<open>newBlock\<close>, over an encoder as the spec requires it, and what a
  call of \<open>canSet\<close>, \<open>reset\<close> or \<open>copyOut\<close> that returns leaves behind.
\<close>

definition ecc_closed :: "BitBlock \<Rightarrow> bool" where
  "ecc_closed b \<longleftrightarrow> RS b (take (DataBytes b) (B b)) = drop (DataBytes b) (B b)"

definition codeword :: "RSEncoder \<Rightarrow> nat \<Rightarrow> nat \<Rightarrow> byte list \<Rightarrow> bool" where
  "codeword rs n c w \<longleftrightarrow> length w = n + c \<and> rs (take n w) = drop n w"

inductive reachable :: "BitBlock \<Rightarrow> bool" where
  new: "linear_rs rs (nat c) \<Longrightarrow> newBlock n c rs dat cdat = Inr b \<Longrightarrow> reachable b"
| canSet: "reachable b \<Longrightarrow> canSet b bi bval = Inr (ok, b') \<Longrightarrow> reachable b'"
| reset: "reachable b \<Longrightarrow> reset b bi bval = Inr b' \<Longrightarrow> reachable b'"
| copyOut: "reachable b \<Longrightarrow> copyOut b = Inr b' \<Longrightarrow> reachable b'"

inductive block_op :: "BitBlock \<Rightarrow> BitBlock \<Rightarrow> bool" where
  op_canSet: "canSet b bi bval = Inr (ok, b') \<Longrightarrow> block_op b b'"
| op_reset: "reset b bi bval = Inr b' \<Longrightarrow> block_op b b'"
| op_copyOut: "copyOut b = Inr b' \<Longrightarrow> block_op b b'"

definition block_inv :: "BitBlock \<Rightarrow> bool" where
  "block_inv b \<longleftrightarrow>
     linear_rs (RS b) (CheckBytes b) \<and> length (Tmp b) = CheckBytes b \<and>
     codeword (RS b) (DataBytes b) (CheckBytes b) (B b) \<and>
     (\<forall>r \<in> set (M b) \<union> set (Mret b). codeword (RS b) (DataBytes b) (CheckBytes b) r)"

text \<open>
  The columns of a set \<open>S\<close> are pinned in a block: no active row has a 1 at a
  column of \<open>S\<close>, and each column of \<open>S\<close> has its 1 in exactly one of the rows set
  aside, a row that has no 1 at any other column of \<open>S\<close>.
\<close>

definition pinned :: "BitBlock \<Rightarrow> nat set \<Rightarrow> bool" where
  "pinned b S \<longleftrightarrow>
     (\<forall>j \<in> S.
        (\<forall>r \<in> set (M b). \<not> has r j) \<and>
        (\<exists>k < length (Mret b).
           has (Mret b ! k) j \<and>
           (\<forall>k' < length (Mret b). k' \<noteq> k \<longrightarrow> \<not> has (Mret b ! k') j) \<and>
           (\<forall>j' \<in> S. j' \<noteq> j \<longrightarrow> \<not> has (Mret b ! k) j')))"

section \<open>The image parameters\<close>

text \<open>
  \<open>type Image struct\<close>, without the byte buffers of the picture file and of the
  results (\<open>File\<close>, \<open>Img48\<close>, \<open>Control\<close>, \<open>Code\<close>). A Go \<open>int\<close> has 64 bits;
  \<open>wrap64\<close> is the value an arithmetic result takes in it, and \<open>sdiv\<close> is Go's
  division, which truncates towards zero.
\<close>

record Image =
  Target :: "int list list"
  Dx :: int
  Dy :: int
  URL :: string
  Version :: int
  Mask :: int
  Scale :: int
  Rotation :: int
  Size :: int
  Rand :: bool
  Dither :: bool
  OnlyDataBits :: bool
  SaveControl :: bool

definition wrap64 :: "int \<Rightarrow> int" where
  "wrap64 i = (i + 2 ^ 63) mod 2 ^ 64 - 2 ^ 63"


section \<open>The target picture\<close>

text \<open>
  \<open>func (m *Image) target(x, y int) (targ byte, contrast int)\<close>. \<open>target_cell\<close> is
  the body of the two loops over \<open>dy\<close> and \<open>dx\<close>, at row \<open>r = ty+dy\<close> and column
  \<open>c = tx+dx\<close>, on the counters \<open>(n, sum, sumsq)\<close> (\<open>sm\<close> stands for \<open>sum\<close>); \<open>ty\<close> and \<open>tx\<close> are indices of
  slices there, so that \<open>ty+dy\<close> and \<open>tx+dx\<close> stay far inside 64 bits.
\<close>

definition del_range :: "int list" where
  "del_range = [-5, -4, -3, -2, -1, 0, 1, 2, 3, 4, 5]"

definition target_cell :: "int list list \<Rightarrow> int \<Rightarrow> int \<Rightarrow> int \<times> int \<times> int \<Rightarrow> int \<times> int \<times> int" where
  "target_cell T r c acc =
     (case acc of (n, sm, sumsq) \<Rightarrow>
        if 0 \<le> r \<and> r < int (length T) \<and> 0 \<le> c \<and> c < int (length (T ! nat r))
        then let v = T ! nat r ! nat c
             in (n + 1, wrap64 (sm + v), wrap64 (sumsq + wrap64 (v * v)))
        else (n, sm, sumsq))"

definition target_sums :: "int list list \<Rightarrow> int \<Rightarrow> int \<Rightarrow> int \<times> int \<times> int" where
  "target_sums T ty tx =
     fold (\<lambda>dy. fold (\<lambda>dx. target_cell T (ty + dy) (tx + dx)) del_range) del_range (0, 0, 0)"

definition target :: "Image \<Rightarrow> int \<Rightarrow> int \<Rightarrow> byte \<times> int" where
  "target m x y =
     (let tx = wrap64 (x + Dx m); ty = wrap64 (y + Dy m) in
      if ty < 0 \<or> ty \<ge> int (length (Target m)) \<or> tx < 0
         \<or> tx \<ge> int (length (Target m ! nat ty))
      then (255, -1)
      else
        let v0 = Target m ! nat ty ! nat tx in
        if v0 < 0 then (255, -1)
        else
          case target_sums (Target m) ty tx of (n, sm, sumsq) \<Rightarrow>
            let avg = sm sdiv n;
                contrast = wrap64 (sumsq sdiv n - wrap64 (avg * avg))
            in (word_of_int v0, contrast))"

text \<open>
  The claim's words for the contrast: the values of the target that lie within the
  11 by 11 window around row \<open>ty\<close> and column \<open>tx\<close>, and the mean of their squares
  minus the square of their mean, both means being integer quotients.
\<close>

definition window :: "int list list \<Rightarrow> int \<Rightarrow> int \<Rightarrow> int list" where
  "window T ty tx =
     concat (map (\<lambda>r. concat (map (\<lambda>c.
       if 0 \<le> r \<and> r < int (length T) \<and> 0 \<le> c \<and> c < int (length (T ! nat r))
       then [T ! nat r ! nat c] else []) [tx - 5 .. tx + 5])) [ty - 5 .. ty + 5])"

definition variance :: "int list \<Rightarrow> int" where
  "variance vs =
     (\<Sum>v\<leftarrow>vs. v * v) sdiv int (length vs) - ((\<Sum>v\<leftarrow>vs. v) sdiv int (length vs)) ^ 2"

text \<open>The values of the target at those places \<open>(r, c)\<close> of a list that lie within it.\<close>

definition cell_values :: "int list list \<Rightarrow> (int \<times> int) list \<Rightarrow> int list" where
  "cell_values T cs =
     concat (map (\<lambda>(r, c).
       if 0 \<le> r \<and> r < int (length T) \<and> 0 \<le> c \<and> c < int (length (T ! nat r))
       then [T ! nat r ! nat c] else []) cs)"

text \<open>The values a target holds (data model): a brightness 0..255, or -1 for unset.\<close>

definition valid_target :: "int list list \<Rightarrow> bool" where
  "valid_target T \<longleftrightarrow> (\<forall>row \<in> set T. \<forall>v \<in> set row. -1 \<le> v \<and> v \<le> 255)"

section \<open>The plan and its rotation\<close>

text \<open>
  Modelled from the spec: package \<open>coding\<close> is not among the sources. A \<open>Pixel\<close> is an
  unsigned machine integer carrying the role, the offset and the flags of a module;
  a \<open>Plan\<close> offers the block parameters and \<open>pixels[y][x]\<close>.
\<close>

type_synonym Pixel = "32 word"

record Plan =
  PlanDataBytes :: int
  PlanCheckBytes :: int
  Blocks :: int
  Pixel :: "Pixel list list"

text \<open>\<open>P[r][c]\<close>, for a slice of slices.\<close>

definition at2 :: "'a list list \<Rightarrow> nat \<Rightarrow> nat \<Rightarrow> error + 'a" where
  "at2 P r c = (if r < length P \<and> c < length (P ! r) then Inr (P ! r ! c) else Inl RuntimePanic)"

fun collect :: "(error + 'a) list \<Rightarrow> error + 'a list" where
  "collect [] = Inr []"
| "collect (x # xs) = bindE x (\<lambda>v. bindE (collect xs) (\<lambda>vs. Inr (v # vs)))"

text \<open>
  The loops \<open>for y := 0; y < N; y++ { for x := 0; x < N; x++ { pix[y][x] = ... } }\<close>
  of \<open>rotate\<close>; \<open>src y x\<close> is the place of the old grid that is read.
\<close>

definition rotate_grid :: "Pixel list list \<Rightarrow> (nat \<Rightarrow> nat \<Rightarrow> nat \<times> nat) \<Rightarrow> error + Pixel list list" where
  "rotate_grid P src =
     (let N = length P in
      collect (map (\<lambda>y. collect (map (\<lambda>x. case src y x of (r, c) \<Rightarrow> at2 P r c) [0 ..< N]))
        [0 ..< N]))"

text \<open>\<open>func (m *Image) rotate(p *coding.Plan, rot int)\<close>.\<close>

definition rotate_plan :: "Plan \<Rightarrow> int \<Rightarrow> error + Plan" where
  "rotate_plan p rot =
     (if rot = 0 then Inr p
      else
        let N = length (Pixel p) in
        bindE (if rot = 1 then rotate_grid (Pixel p) (\<lambda>y x. (x, N - 1 - y))
               else if rot = 2 then rotate_grid (Pixel p) (\<lambda>y x. (N - 1 - y, N - 1 - x))
               else if rot = 3 then rotate_grid (Pixel p) (\<lambda>y x. (N - 1 - x, y))
               else Inr (replicate N (replicate N 0)))
          (\<lambda>pix. Inr (p\<lparr>Pixel := pix\<rparr>)))"


section \<open>Encode: the steering of one code\<close>

text \<open>
  Modelled from the spec: the accessors of a \<open>coding.Pixel\<close> (\<open>pix.Role()\<close>,
  \<open>pix.Offset()\<close>) and the flag \<open>coding.Invert\<close> are not among the sources; they
  are the fields of \<open>Coding\<close>. The roles are those the spec lists.
\<close>

datatype PixelRole = Finder | Timing | Alignment | Format | VersionInfo | Data | Check | Unused

record Coding =
  Role :: "Pixel \<Rightarrow> PixelRole"
  Offset :: "Pixel \<Rightarrow> nat"
  Invert :: Pixel

text \<open>
  \<open>type Pixinfo struct\<close> and \<open>type Pixorder struct\<close>. The pointer \<open>Block *BitBlock\<close>
  is \<open>None\<close> for \<open>nil\<close> or the address of a block: its index in the list of all the
  blocks that \<open>newBlock\<close> has allocated.
\<close>

record Pixinfo =
  X :: int
  Y :: int
  Pix :: Pixel
  Targ :: byte
  DTarg :: int
  Contrast :: int
  HardZero :: bool
  Block :: "nat option"
  Bit :: nat

record Pixorder =
  Off :: int
  Priority :: int

text \<open>A loop over a list whose body may panic: \<open>for _, x := range xs { s = f(x, s) }\<close>.\<close>

fun foldE :: "('a \<Rightarrow> 's \<Rightarrow> error + 's) \<Rightarrow> 'a list \<Rightarrow> 's \<Rightarrow> error + 's" where
  "foldE f [] s = Inr s"
| "foldE f (x # xs) s = bindE (f x s) (foldE f xs)"




text \<open>
  The parameters of one call of \<open>Encode\<close>: the receiver \<open>m\<close> after \<open>Clamp\<close>, the
  plan \<open>p\<close> after \<open>rotate\<close>, and what comes from code outside the sources: the
  pixel accessors; \<open>rand.Intn\<close> on a generator state; \<open>sort.Sort(byPriority(order))\<close>;
  the encoder \<open>rs\<close>; \<open>bbit\<close> and the template bytes \<open>data\<close> that package \<open>coding\<close>
  computes from the URL on every pass (lines 229-247).
\<close>

record 'g Env =
  coding :: Coding
  Intn :: "'g \<Rightarrow> int \<Rightarrow> int \<times> 'g"
  sort_byPriority :: "Pixorder list \<Rightarrow> Pixorder list"
  rs_enc :: RSEncoder
  img :: Image
  plan :: Plan
  bbit :: int
  template :: "byte list"


definition nc :: "'g Env \<Rightarrow> int" where
  "nc env = PlanCheckBytes (plan env) sdiv Blocks (plan env)"


text \<open>Lines 234 and 251: \<open>dbit\<close> and \<open>mbit\<close>.\<close>

definition dbit :: "'g Env \<Rightarrow> int" where
  "dbit env = PlanDataBytes (plan env) * 8 - bbit env"

definition mbit :: "'g Env \<Rightarrow> int" where
  "mbit env = bbit env + dbit env sdiv 10 * 10"

text \<open>
  \<open>BlockRef\<close>: an entry of \<open>bitblocks\<close>, the address of the block with the places of
  its slices \<open>bdata\<close> and \<open>cdata\<close> in the array of \<open>data\<close>. \<open>EncState\<close>: the variables
  of \<open>Encode\<close> that change after the label \<open>Again\<close>.
\<close>

record BlockRef =
  addr :: nat
  bdata_at :: nat
  cdata_at :: nat

record 'g EncState =
  data :: "byte list"
  pixByOff :: "Pixinfo list"
  heap :: "BitBlock list"
  bitblocks :: "BlockRef list"
  nd :: int
  doff :: int
  coff :: int
  rng :: 'g




text \<open>
  Lines 280-290, for the indices \<open>i\<close> of the two loops in turn:
  \<open>if !bb.canSet(uint(i), (bdata[i/8]>>uint(7-i&7))&1) { return nil, fmt.Errorf(...) }\<close>.
\<close>

definition preserve_bit :: "byte list \<Rightarrow> nat \<Rightarrow> BitBlock \<Rightarrow> error + BitBlock" where
  "preserve_bit bdat i bb =
     bindE (get_bit bdat i) (\<lambda>v.
     bindE (canSet bb i v) (\<lambda>(ok, bb').
       if \<not> ok then Inl (Error ''cannot preserve required bits'') else Inr bb'))"

definition preserve :: "byte list \<Rightarrow> int \<Rightarrow> int \<Rightarrow> int \<Rightarrow> BitBlock \<Rightarrow> error + BitBlock" where
  "preserve bdat lo hi n bb =
     foldE (preserve_bit bdat) ([0 ..< nat lo] @ [nat hi ..< nat (n * 8)]) bb"
























section \<open>What a pass keeps\<close>

text \<open>
  The bits that may be edited are the bits \<open>g\<close> of the data with
  \<open>bbit \<le> g < mbit\<close>. \<open>bits_of pxs a\<close> are the bits recorded in \<open>pixByOff\<close> for
  the block at address \<open>a\<close>. A block of \<open>bitblocks\<close> is in order when the bits of
  its data that may not be edited are those of the template and are pinned in it
  together with the bits recorded for it; the state of a pass is in order when this
  holds of all its blocks, the bits of \<open>data\<close> that may not be edited are those of
  the template, and every pointer of \<open>pixByOff\<close> is the address of a block.
\<close>

definition editable :: "'g Env \<Rightarrow> int \<Rightarrow> bool" where
  "editable env g \<longleftrightarrow> bbit env \<le> g \<and> g < mbit env"

definition bits_of :: "Pixinfo list \<Rightarrow> nat \<Rightarrow> nat set" where
  "bits_of pxs a = {Bit p | p. p \<in> set pxs \<and> Block p = Some a}"

definition kept :: "'g Env \<Rightarrow> nat \<Rightarrow> nat \<Rightarrow> nat set" where
  "kept env at n = {i. i < 8 * n \<and> \<not> editable env (int (8 * at + i))}"

definition data_kept :: "'g Env \<Rightarrow> byte list \<Rightarrow> bool" where
  "data_kept env dat \<longleftrightarrow>
     length dat = length (template env) \<and>
     (\<forall>g. g < 8 * nat (PlanDataBytes (plan env)) \<and> \<not> editable env (int g) \<longrightarrow>
          has dat g = has (template env) g)"

definition good_ref :: "'g Env \<Rightarrow> byte list \<Rightarrow> Pixinfo list \<Rightarrow> BitBlock list \<Rightarrow> BlockRef \<Rightarrow> bool" where
  "good_ref env dat pxs hp r \<longleftrightarrow>
     addr r < length hp \<and>
     (let b = hp ! addr r; n = DataBytes b in
        length (B b) = n + CheckBytes b \<and> length (bdata b) = n \<and>
        length (cdata b) = CheckBytes b \<and>
        bdata_at r + n \<le> length dat \<and> cdata_at r + CheckBytes b \<le> length dat \<and>
        nat (PlanDataBytes (plan env)) \<le> cdata_at r \<and>
        (\<forall>i \<in> kept env (bdata_at r) n.
           8 * bdata_at r + i < 8 * nat (PlanDataBytes (plan env)) \<longrightarrow>
           has (B b) i = has (template env) (8 * bdata_at r + i)) \<and>
        pinned b (kept env (bdata_at r) n \<union> bits_of pxs (addr r)) \<and>
        kept env (bdata_at r) n \<inter> bits_of pxs (addr r) = {})"

definition pointers_ok :: "Pixinfo list \<Rightarrow> nat \<Rightarrow> bool" where
  "pointers_ok pxs h \<longleftrightarrow> (\<forall>p \<in> set pxs. \<forall>a. Block p = Some a \<longrightarrow> a < h)"

definition pass_inv :: "'g Env \<Rightarrow> 'g EncState \<Rightarrow> bool" where
  "pass_inv env st \<longleftrightarrow>
     data_kept env (data st) \<and> pointers_ok (pixByOff st) (length (heap st)) \<and>
     (\<forall>r \<in> set (bitblocks st). good_ref env (data st) (pixByOff st) (heap st) r) \<and>
     0 \<le> doff st \<and> doff st mod 8 = 0 \<and> 0 \<le> coff st"

section \<open>Example blocks\<close>

text \<open>
  A block of one data byte and two check bytes over the encoder of QR codes: as
  \<open>newBlock(1, 2, rs, [0x41], [0xC3, 0x82])\<close> returns it, and the same block after
  \<open>canSet(0, 1)\<close>.
\<close>

definition example_new :: BitBlock where
  "example_new =
     \<lparr>DataBytes = 1, CheckBytes = 2, B = [65, 195, 130],
      M = [[128, 157, 29], [64, 192, 128], [32, 96, 64], [16, 48, 32], [8, 24, 16],
           [4, 12, 8], [2, 6, 4], [1, 3, 2]],
      Mret = [], Tmp = [195, 130], RS = rs_qr 2, bdata = [65], cdata = [195, 130]\<rparr>"

definition example_pinned :: BitBlock where
  "example_pinned =
     \<lparr>DataBytes = 1, CheckBytes = 2, B = [193, 94, 159],
      M = [[1, 3, 2], [64, 192, 128], [32, 96, 64], [16, 48, 32], [8, 24, 16],
           [4, 12, 8], [2, 6, 4]],
      Mret = [[128, 157, 29]], Tmp = [94, 159], RS = rs_qr 2, bdata = [65],
      cdata = [195, 130]\<rparr>"

text \<open>The block after \<open>canSet(1, 1)\<close> as well: two rows are set aside.\<close>

definition example_pinned2 :: BitBlock where
  "example_pinned2 =
     \<lparr>DataBytes = 1, CheckBytes = 2, B = [193, 94, 159],
      M = [[2, 6, 4], [1, 3, 2], [32, 96, 64], [16, 48, 32], [8, 24, 16], [4, 12, 8]],
      Mret = [[64, 192, 128], [128, 157, 29]], Tmp = [94, 159], RS = rs_qr 2,
      bdata = [65], cdata = [195, 130]\<rparr>"

text \<open>A plan of two rows and two columns, for the rotation.\<close>

definition example_plan :: Plan where
  "example_plan =
     \<lparr>PlanDataBytes = 0, PlanCheckBytes = 0, Blocks = 1, Pixel = [[1, 2], [3, 4]]\<rparr>"

text \<open>
  A picture of three rows of three values, the middle one unset, for \<open>target\<close>.
\<close>

definition example_image :: Image where
  "example_image =
     \<lparr>Target = [[0, 255, 0], [255, -1, 255], [10, 20, 30]], Dx = 1, Dy = 1, URL = [],
      Version = 1, Mask = 0, Scale = 8, Rotation = 0, Size = 0, Rand = False,
      Dither = False, OnlyDataBits = False, SaveControl = False\<rparr>"







section \<open>Sequencing, bits and rows\<close>

lemma bindE_Inr [simp]: "bindE (Inr x) f = f x"
  by (simp add: bindE_def)

lemma bindE_Inl [simp]: "bindE (Inl e) f = Inl e"
  by (simp add: bindE_def)

lemma bindE_eq_Inr: "(bindE m f = Inr y) = (\<exists>x. m = Inr x \<and> f x = Inr y)"
  by (cases m) simp_all

lemma byte_test_bit: "((w :: byte) AND push_bit n 1 \<noteq> 0) = bit w n"
  by (simp add: and_exp_eq_0_iff_not_bit)

lemma byte_shift_bit: "drop_bit n (w :: byte) AND 1 = of_bool (bit w n)"
  by (simp add: and_one_eq mod_2_eq_odd bit_iff_odd_drop_bit)

lemma row_has_Inr: "row_has row bi = Inr h \<longleftrightarrow> bi div 8 < length row \<and> h = has row bi"
  unfolding row_has_def has_def byte_test_bit by auto

lemma row_has_eq: "bi div 8 < length row \<Longrightarrow> row_has row bi = Inr (has row bi)"
  by (simp add: row_has_Inr)

lemma row_has_Inl: "row_has row bi = Inl e \<longleftrightarrow> \<not> bi div 8 < length row \<and> e = RuntimePanic"
  by (auto simp: row_has_def)

lemma get_bit_Inr:
  "get_bit bs bi = Inr v \<longleftrightarrow> bi div 8 < length bs \<and> v = of_bool (has bs bi)"
  unfolding get_bit_def has_def byte_shift_bit by auto

lemma has_xor:
  "length a = length b \<Longrightarrow> has (map2 (XOR) a b) c = (has a c \<noteq> has b c)"
  by (auto simp: has_def bit_xor_iff)

lemma xor_into_Inr:
  "xor_into row src = Inr r \<longleftrightarrow> length row \<le> length src \<and> r = map2 (XOR) row src"
  by (auto simp: xor_into_def)

lemma xor_from_Inr:
  "xor_from dst src = Inr r \<longleftrightarrow>
     length src \<le> length dst \<and> r = map2 (XOR) (take (length src) dst) src @ drop (length src) dst"
  by (auto simp: xor_from_def)

lemma xor_from_same_length:
  "length src = length dst \<Longrightarrow> xor_from dst src = Inr (map2 (XOR) dst src)"
  by (simp add: xor_from_def)


lemmas canSet_scan_unfold = canSet_scan.simps

declare canSet_scan.simps [simp del]

lemma canSet_scan_rule:
  assumes run: "canSet_scan bi found m j = Inr (f', m')"
    and init: "P found m j"
    and skip: "\<And>fd m j. P fd m j \<Longrightarrow> j < length m \<Longrightarrow> row_has (m ! j) bi = Inr False
                 \<Longrightarrow> P fd m (j + 1)"
    and first: "\<And>m j. P False m j \<Longrightarrow> j < length m \<Longrightarrow> row_has (m ! j) bi = Inr True
                 \<Longrightarrow> P True (if j \<noteq> 0 then m[0 := m ! j, j := m ! 0] else m) (j + 1)"
    and add: "\<And>m j row. P True m j \<Longrightarrow> j < length m \<Longrightarrow> row_has (m ! j) bi = Inr True
                 \<Longrightarrow> xor_into (m ! j) (m ! 0) = Inr row \<Longrightarrow> P True (m[j := row]) (j + 1)"
  shows "\<exists>j'. P f' m' j' \<and> length m' \<le> j'"
  using assms
proof (induction bi found m j rule: canSet_scan.induct)
  case (1 bi found m j)
  note skip = "1.prems"(3) and first = "1.prems"(4) and add = "1.prems"(5)
  show ?case
  proof (cases "j < length m")
    case False
    with "1.prems"(1,2) show ?thesis
      by (subst (asm) canSet_scan_unfold) auto
  next
    case True
    from "1.prems"(1) True obtain h where h: "row_has (m ! j) bi = Inr h"
      by (subst (asm) canSet_scan_unfold) (auto simp: bindE_eq_Inr)
    show ?thesis
    proof (cases h)
      case False
      with "1.prems"(1) True h have "canSet_scan bi found m (j + 1) = Inr (f', m')"
        by (subst (asm) canSet_scan_unfold) simp
      moreover have "P found m (j + 1)"
        using skip [OF "1.prems"(2) True] h False by simp
      ultimately show ?thesis
        using False by (intro "1.IH"(1) [OF True _ _ _ skip first add]) auto
    next
      case hT: True
      show ?thesis
      proof (cases found)
        case False
        let ?m = "if j \<noteq> 0 then m[0 := m ! j, j := m ! 0] else m"
        from "1.prems"(1) True h hT False
        have "canSet_scan bi True ?m (j + 1) = Inr (f', m')"
          by (subst (asm) canSet_scan_unfold) simp
        moreover have "P True ?m (j + 1)"
          using first [of m j] "1.prems"(2) True h hT False by simp
        ultimately show ?thesis
          using hT False by (intro "1.IH"(2) [OF True _ _ _ _ skip first add]) auto
      next
        case fT: True
        from "1.prems"(1) True h hT fT obtain row where
          row: "xor_into (m ! j) (m ! 0) = Inr row"
          and rest: "canSet_scan bi found (m[j := row]) (j + 1) = Inr (f', m')"
          by (subst (asm) canSet_scan_unfold) (auto simp: bindE_eq_Inr)
        have "P found (m[j := row]) (j + 1)"
          using add [of m j row] "1.prems"(2) True h hT fT row by simp
        with rest show ?thesis
          using hT fT row by (intro "1.IH"(3) [OF True _ _ _ _ skip first add]) auto
      qed
    qed
  qed
qed


lemma canSet_scan_not_found:
  assumes "canSet_scan bi False m 0 = Inr (False, m')"
  shows "m' = m"
proof -
  have "\<exists>j'. (\<not> False \<longrightarrow> m' = m) \<and> length m' \<le> j'"
    by (rule canSet_scan_rule [OF assms, where P = "\<lambda>fd x j. \<not> fd \<longrightarrow> x = m"]) auto
  then show ?thesis by simp
qed

lemma canSet_scan_length:
  assumes "canSet_scan bi found m j = Inr (f', m')"
  shows "length m' = length m"
proof -
  have "\<exists>j'. length m' = length m \<and> length m' \<le> j'"
    by (rule canSet_scan_rule [OF assms, where P = "\<lambda>fd x j. length x = length m"]) auto
  then show ?thesis by simp
qed

lemma canSet_scan_found_nonempty:
  assumes "canSet_scan bi False m 0 = Inr (True, m')"
  shows "0 < length m"
proof -
  have "\<exists>j'. (True \<longrightarrow> 0 < length m') \<and> length m' \<le> j'"
    by (rule canSet_scan_rule [OF assms, where P = "\<lambda>fd x j. fd \<longrightarrow> 0 < length x"]) auto
  then show ?thesis using canSet_scan_length [OF assms] by simp
qed

lemma check_fields:
  "check b = Inr b' \<Longrightarrow> \<exists>t. b' = b\<lparr>Tmp := t\<rparr>"
  by (auto simp: check_def bindE_eq_Inr split: if_splits)

lemma canSet_False_same:
  assumes "canSet b bi bval = Inr (False, b')"
  shows "b' = b"
proof -
  from assms obtain found m where
    scan: "canSet_scan bi False (M b) 0 = Inr (found, m)"
    and rest: "(if \<not> found then Inr (False, b\<lparr>M := m\<rparr>)
       else
         let targ = m ! 0 in
         bindE (canSet_saved bi targ (Mret b)) (\<lambda>saved.
         bindE (get_bit (B b) bi) (\<lambda>cur.
         bindE (if cur \<noteq> bval then xor_from (B b) targ else Inr (B b)) (\<lambda>B'.
         bindE (check (b\<lparr>B := B', M := m, Mret := saved\<rparr>)) (\<lambda>b1.
           let n = length m - 1;
               m' = m[0 := m ! n, n := m ! 0];
               b2 = b1\<lparr>M := take n m', Mret := drop n m' @ saved\<rparr>
           in bindE (canSet_reduced bi (M b2)) (\<lambda>u. Inr (True, b2))))))) = Inr (False, b')"
    by (auto simp: canSet_def bindE_eq_Inr)
  have nf: "\<not> found"
    using rest by (auto simp: bindE_eq_Inr Let_def split: if_splits)
  with rest have "b' = b\<lparr>M := m\<rparr>" by simp
  moreover from scan nf have "m = M b" by (simp add: canSet_scan_not_found)
  ultimately show ?thesis by simp
qed


lemma swap_last_drop:
  "0 < length m \<Longrightarrow>
   drop (length m - 1) (m[0 := m ! (length m - 1), length m - 1 := m ! 0]) = [m ! 0]"
  by (cases m rule: rev_cases) (auto simp: nth_append list_update_append)

lemma swap_last_take_set:
  "set (take (length m - 1) (m[0 := m ! (length m - 1), length m - 1 := m ! 0])) \<subseteq> set m"
proof (cases "m = []")
  case True
  then show ?thesis by simp
next
  case False
  then have "set (m[0 := m ! (length m - 1), length m - 1 := m ! 0]) = set m"
    by (intro set_swap) auto
  then show ?thesis using set_take_subset by fastforce
qed

lemma canSet_TrueE:
  assumes "canSet b bi bval = Inr (True, b')"
  obtains m saved cur B' b1 where
    "canSet_scan bi False (M b) 0 = Inr (True, m)"
    "canSet_saved bi (m ! 0) (Mret b) = Inr saved"
    "get_bit (B b) bi = Inr cur"
    "(if cur \<noteq> bval then xor_from (B b) (m ! 0) else Inr (B b)) = Inr B'"
    "check (b\<lparr>B := B', M := m, Mret := saved\<rparr>) = Inr b1"
    "canSet_reduced bi (take (length m - 1) (m[0 := m ! (length m - 1), length m - 1 := m ! 0]))
       = Inr ()"
    "b' = b1\<lparr>M := take (length m - 1) (m[0 := m ! (length m - 1), length m - 1 := m ! 0]),
             Mret := m ! 0 # saved\<rparr>"
proof -
  from assms obtain found m where
    scan: "canSet_scan bi False (M b) 0 = Inr (found, m)"
    and rest: "(if \<not> found then Inr (False, b\<lparr>M := m\<rparr>)
       else
         let targ = m ! 0 in
         bindE (canSet_saved bi targ (Mret b)) (\<lambda>saved.
         bindE (get_bit (B b) bi) (\<lambda>cur.
         bindE (if cur \<noteq> bval then xor_from (B b) targ else Inr (B b)) (\<lambda>B'.
         bindE (check (b\<lparr>B := B', M := m, Mret := saved\<rparr>)) (\<lambda>b1.
           let n = length m - 1;
               m' = m[0 := m ! n, n := m ! 0];
               b2 = b1\<lparr>M := take n m', Mret := drop n m' @ saved\<rparr>
           in bindE (canSet_reduced bi (M b2)) (\<lambda>u. Inr (True, b2))))))) = Inr (True, b')"
    by (auto simp: canSet_def bindE_eq_Inr)
  have f: found using rest by (auto split: if_splits)
  have pos: "0 < length m"
    using scan f canSet_scan_found_nonempty canSet_scan_length by fastforce
  from rest f obtain saved cur B' b1 where
    1: "canSet_saved bi (m ! 0) (Mret b) = Inr saved"
    and 2: "get_bit (B b) bi = Inr cur"
    and 3: "(if cur \<noteq> bval then xor_from (B b) (m ! 0) else Inr (B b)) = Inr B'"
    and 4: "check (b\<lparr>B := B', M := m, Mret := saved\<rparr>) = Inr b1"
    and 5: "canSet_reduced bi
              (take (length m - 1) (m[0 := m ! (length m - 1), length m - 1 := m ! 0])) = Inr ()"
    and 6: "b' = b1\<lparr>M := take (length m - 1) (m[0 := m ! (length m - 1), length m - 1 := m ! 0]),
               Mret := drop (length m - 1) (m[0 := m ! (length m - 1), length m - 1 := m ! 0])
                         @ saved\<rparr>"
    by (auto simp: bindE_eq_Inr Let_def)
  from 6 pos have 7: "b' = b1\<lparr>M := take (length m - 1)
                               (m[0 := m ! (length m - 1), length m - 1 := m ! 0]),
                        Mret := m ! 0 # saved\<rparr>"
    by (simp only: swap_last_drop [OF pos] append_Cons append_Nil)
  from scan f have 0: "canSet_scan bi False (M b) 0 = Inr (True, m)" by simp
  show thesis by (rule that [OF 0 1 2 3 4 5 7])
qed

lemma canSet_saved_Inr:
  "canSet_saved bi targ rows = Inr saved \<longleftrightarrow>
     (\<forall>row \<in> set rows. bi div 8 < length row \<and> (has row bi \<longrightarrow> length row \<le> length targ)) \<and>
     saved = map (\<lambda>row. if has row bi then map2 (XOR) row targ else row) rows"
  by (induction rows arbitrary: saved)
     (auto simp: bindE_eq_Inr row_has_Inr xor_into_Inr)

lemma canSet_reduced_Inr:
  "canSet_reduced bi rows = Inr u \<longleftrightarrow> (\<forall>row \<in> set rows. bi div 8 < length row \<and> \<not> has row bi)"
  by (induction rows) (auto simp: bindE_eq_Inr row_has_Inr)

lemma canSet_True_rows:
  assumes "canSet b bi bval = Inr (True, b')"
  shows "length (M b') + 1 = length (M b) \<and> length (Mret b') = length (Mret b) + 1"
proof -
  from assms obtain m saved cur B' b1 where
    scan: "canSet_scan bi False (M b) 0 = Inr (True, m)"
    and saved: "canSet_saved bi (m ! 0) (Mret b) = Inr saved"
    and chk: "check (b\<lparr>B := B', M := m, Mret := saved\<rparr>) = Inr b1"
    and b': "b' = b1\<lparr>M := take (length m - 1) (m[0 := m ! (length m - 1), length m - 1 := m ! 0]),
             Mret := m ! 0 # saved\<rparr>"
    by (rule canSet_TrueE)
  have "length m = length (M b)" "0 < length (M b)"
    using scan canSet_scan_length canSet_scan_found_nonempty by auto
  moreover have "length saved = length (Mret b)"
    using saved by (simp add: canSet_saved_Inr)
  ultimately show ?thesis using b' by simp
qed


lemma nth_update_front: "j < length m \<Longrightarrow> m[0 := v] ! 0 = v"
  by (cases m) auto

lemma canSet_scan_none:
  assumes "canSet_scan bi False m 0 = Inr (False, m')"
  shows "\<forall>row \<in> set m. \<not> has row bi"
proof -
  have "\<exists>j'. (\<not> False \<longrightarrow> m' = m \<and> (\<forall>k<j'. k < length m \<longrightarrow> \<not> has (m ! k) bi)) \<and> length m' \<le> j'"
    by (rule canSet_scan_rule [OF assms,
          where P = "\<lambda>fd x j. \<not> fd \<longrightarrow> x = m \<and> (\<forall>k<j. k < length m \<longrightarrow> \<not> has (m ! k) bi)"])
       (auto simp: row_has_Inr less_Suc_eq)
  then show ?thesis by (auto simp: in_set_conv_nth)
qed

lemma canSet_scan_pred:
  assumes run: "canSet_scan bi False m 0 = Inr (f, m')"
    and all: "\<forall>r \<in> set m. Q r"
    and closed: "\<And>u w. Q u \<Longrightarrow> Q w \<Longrightarrow> Q (map2 (XOR) u w)"
  shows "\<forall>r \<in> set m'. Q r"
proof -
  have "\<exists>j'. (\<forall>r \<in> set m'. Q r) \<and> length m' \<le> j'"
  proof (rule canSet_scan_rule [OF run, where P = "\<lambda>fd x j. \<forall>r \<in> set x. Q r"])
    show "\<forall>r \<in> set m. Q r" by (rule all)
  next
    fix x :: "byte list list" and j
    assume "\<forall>r \<in> set x. Q r" "j < length x"
    moreover from \<open>j < length x\<close> have "set (x[0 := x ! j, j := x ! 0]) = set x"
      by (intro set_swap) auto
    ultimately show "\<forall>r \<in> set (if j \<noteq> 0 then x[0 := x ! j, j := x ! 0] else x). Q r"
      by simp
  next
    fix x :: "byte list list" and j row
    assume a: "\<forall>r \<in> set x. Q r" "j < length x" "xor_into (x ! j) (x ! 0) = Inr row"
    then have "x ! j \<in> set x" "x ! 0 \<in> set x" by (auto intro!: nth_mem)
    with a have "Q (x ! j)" "Q (x ! 0)" by blast+
    with a closed have "Q row" by (auto simp: xor_into_Inr)
    with a show "\<forall>r \<in> set (x[j := row]). Q r"
      using set_update_subset_insert [of x j row] by auto
  qed simp
  then show ?thesis by simp
qed

lemma canSet_scan_pivot:
  assumes "canSet_scan bi False m 0 = Inr (True, m')"
  shows "has (m' ! 0) bi"
proof -
  have "\<exists>j'. (True \<longrightarrow> 0 < j' \<and> has (m' ! 0) bi) \<and> length m' \<le> j'"
    by (rule canSet_scan_rule [OF assms, where P = "\<lambda>fd x j. fd \<longrightarrow> 0 < j \<and> has (x ! 0) bi"])
       (auto simp: row_has_Inr nth_update_front)
  then show ?thesis by blast
qed

lemma check_Inr:
  "check b = Inr b' \<longleftrightarrow>
     DataBytes b \<le> length (B b) \<and>
     length (RS b (take (DataBytes b) (B b))) \<le> length (Tmp b) \<and>
     drop (DataBytes b) (B b) =
       RS b (take (DataBytes b) (B b)) @ drop (length (RS b (take (DataBytes b) (B b)))) (Tmp b) \<and>
     b' = b\<lparr>Tmp := drop (DataBytes b) (B b)\<rparr>"
  by (auto simp: check_def ECC_def bindE_eq_Inr)

lemma codeword_xor:
  assumes "linear_rs rs c" "codeword rs n c u" "codeword rs n c w"
  shows "codeword rs n c (map2 (XOR) u w)"
proof -
  from assms have len: "length u = n + c" "length w = n + c"
    and u: "rs (take n u) = drop n u" and w: "rs (take n w) = drop n w"
    by (auto simp: codeword_def)
  have "rs (take n (map2 (XOR) u w)) = rs (map2 (XOR) (take n u) (take n w))"
    by (simp add: take_map take_zip)
  also have "\<dots> = map2 (XOR) (rs (take n u)) (rs (take n w))"
    using assms(1) len by (simp add: linear_rs_def)
  also have "\<dots> = drop n (map2 (XOR) u w)"
    by (simp add: u w drop_map drop_zip)
  finally show ?thesis using len by (simp add: codeword_def)
qed

lemma check_codeword:
  assumes "linear_rs (RS b) (CheckBytes b)" "length (Tmp b) = CheckBytes b"
    "codeword (RS b) (DataBytes b) (CheckBytes b) (B b)"
  shows "check b = Inr (b\<lparr>Tmp := drop (DataBytes b) (B b)\<rparr>)"
  using assms by (simp add: check_Inr codeword_def linear_rs_def)

lemma block_inv_closed: "block_inv b \<Longrightarrow> ecc_closed b"
  by (simp add: block_inv_def ecc_closed_def codeword_def)

lemma reset_rows_Inr:
  "reset_rows b bi rows = Inr b' \<Longrightarrow>
     \<exists>k<length rows. has (rows ! k) bi \<and> (\<forall>i<k. \<not> has (rows ! i) bi) \<and>
        length (rows ! k) \<le> length (B b) \<and>
        b' = b\<lparr>B := map2 (XOR) (take (length (rows ! k)) (B b)) (rows ! k)
                      @ drop (length (rows ! k)) (B b)\<rparr>"
proof (induction rows)
  case Nil
  then show ?case by simp
next
  case (Cons row rows)
  from Cons.prems obtain h where h: "row_has row bi = Inr h"
    by (auto simp: bindE_eq_Inr)
  show ?case
  proof (cases h)
    case True
    with Cons.prems h have "length row \<le> length (B b) \<and>
        b' = b\<lparr>B := map2 (XOR) (take (length row) (B b)) row @ drop (length row) (B b)\<rparr>"
      by (auto simp: bindE_eq_Inr xor_from_Inr)
    moreover from h True have "has row bi" by (simp add: row_has_Inr)
    ultimately show ?thesis by (intro exI [of _ 0]) simp
  next
    case False
    with Cons.prems h have "reset_rows b bi rows = Inr b'" by simp
    from Cons.IH [OF this] obtain k where k: "k < length rows" "has (rows ! k) bi"
      "\<forall>i<k. \<not> has (rows ! i) bi" "length (rows ! k) \<le> length (B b)"
      "b' = b\<lparr>B := map2 (XOR) (take (length (rows ! k)) (B b)) (rows ! k)
                      @ drop (length (rows ! k)) (B b)\<rparr>"
      by blast
    from h False have "\<not> has row bi" by (simp add: row_has_Inr)
    with k show ?thesis
      by (intro exI [of _ "Suc k"]) (auto simp: less_Suc_eq_0_disj)
  qed
qed

lemma reset_rows_panic:
  "\<forall>row \<in> set rows. bi div 8 < length row \<and> \<not> has row bi \<Longrightarrow>
   reset_rows b bi rows = Inl (Panic ''reset of unset bit'')"
  by (induction rows) (simp_all add: row_has_eq)

lemma reset_rows_first:
  "k < length rows \<Longrightarrow> has (rows ! k) bi \<Longrightarrow>
   \<forall>i<k. bi div 8 < length (rows ! i) \<and> \<not> has (rows ! i) bi \<Longrightarrow>
   reset_rows b bi rows = bindE (xor_from (B b) (rows ! k)) (\<lambda>B'. Inr (b\<lparr>B := B'\<rparr>))"
proof (induction rows arbitrary: k)
  case Nil
  then show ?case by simp
next
  case (Cons row rows)
  show ?case
  proof (cases k)
    case 0
    with Cons.prems(2) have "row_has row bi = Inr True"
      by (simp add: row_has_Inr has_def)
    with 0 show ?thesis by simp
  next
    case (Suc j)
    with Cons.prems(3) have "bi div 8 < length row" "\<not> has row bi" by auto
    then have h: "row_has row bi = Inr False" by (simp add: row_has_Inr)
    have "reset_rows b bi rows = bindE (xor_from (B b) (rows ! j)) (\<lambda>B'. Inr (b\<lparr>B := B'\<rparr>))"
    proof (rule Cons.IH)
      show "j < length rows" using Cons.prems(1) Suc by simp
      show "has (rows ! j) bi" using Cons.prems(2) Suc by simp
      show "\<forall>i<j. bi div 8 < length (rows ! i) \<and> \<not> has (rows ! i) bi"
      proof (intro allI impI)
        fix i assume "i < j"
        then have "Suc i < k" using Suc by simp
        with Cons.prems(3) have "bi div 8 < length ((row # rows) ! Suc i) \<and> \<not> has ((row # rows) ! Suc i) bi"
          by blast
        then show "bi div 8 < length (rows ! i) \<and> \<not> has (rows ! i) bi" by simp
      qed
    qed
    with h Suc show ?thesis by simp
  qed
qed

lemma first_row_with_bit:
  assumes "\<exists>row \<in> set rows. has row bi"
  shows "\<exists>k < length rows. has (rows ! k) bi \<and> (\<forall>i<k. \<not> has (rows ! i) bi)"
proof -
  from assms obtain j where j: "j < length rows" "has (rows ! j) bi"
    by (auto simp: in_set_conv_nth)
  define k where "k = (LEAST k. k < length rows \<and> has (rows ! k) bi)"
  from j have "k < length rows \<and> has (rows ! k) bi"
    unfolding k_def by (intro LeastI [of "\<lambda>k. k < length rows \<and> has (rows ! k) bi" j]) simp
  moreover have "\<not> has (rows ! i) bi" if "i < k" for i
  proof
    assume "has (rows ! i) bi"
    moreover from that \<open>k < length rows \<and> has (rows ! k) bi\<close> have "i < length rows" by simp
    ultimately have "k \<le> i" unfolding k_def by (intro Least_le) simp
    with that show False by simp
  qed
  ultimately show ?thesis by blast
qed


lemma length_copy_bytes [simp]: "length (copy_bytes dst src) = length dst"
  by (simp add: copy_bytes_def)

lemma ECC_exact:
  "length (rs d) = length chk \<Longrightarrow> ECC rs d chk = Inr (rs d)"
  by (simp add: ECC_def)

lemma unit_row_codeword:
  assumes "linear_rs rs c" "unit_row rs n c i = Inr row"
  shows "codeword rs n c row"
proof -
  let ?r = "(replicate (n + c) 0)[i div 8 := push_bit (7 - i mod 8) (1 :: byte)]"
  from assms(1) have "length (rs (take n ?r)) = length (drop n ?r)"
    by (simp add: linear_rs_def)
  then have "ECC rs (take n ?r) (drop n ?r) = Inr (rs (take n ?r))"
    by (rule ECC_exact)
  with assms(2) have "row = take n ?r @ rs (take n ?r)"
    by (simp add: unit_row_def Let_def)
  with assms(1) show ?thesis by (simp add: codeword_def linear_rs_def)
qed

lemma unit_rows_codeword:
  "linear_rs rs c \<Longrightarrow> unit_rows rs n c is = Inr rows \<Longrightarrow> \<forall>r \<in> set rows. codeword rs n c r"
  by (induction "is" arbitrary: rows) (auto simp: bindE_eq_Inr unit_row_codeword)

lemma newBlock_inv:
  assumes lin: "linear_rs rs (nat c)" and new: "newBlock n c rs dat cdat = Inr b"
  shows "block_inv b"
proof -
  let ?B0 = "copy_bytes (replicate (nat n + nat c) 0) dat"
  let ?d = "take (nat n) ?B0"
  from new have pos: "0 \<le> n" "0 \<le> c"
    by (auto simp: newBlock_def split: if_splits)
  have ecc: "ECC rs ?d (drop (nat n) ?B0) = Inr (rs ?d)"
    using lin by (intro ECC_exact) (simp add: linear_rs_def)
  let ?b0 = "\<lparr>DataBytes = nat n, CheckBytes = nat c, B = ?d @ rs ?d,
                  M = [], Mret = [], Tmp = replicate (nat c) 0, RS = rs,
                  bdata = dat, cdata = cdat\<rparr>"
  have cw: "codeword rs (nat n) (nat c) (?d @ rs ?d)"
    using lin by (simp add: codeword_def linear_rs_def)
  have chk: "check ?b0 = Inr (?b0\<lparr>Tmp := drop (DataBytes ?b0) (B ?b0)\<rparr>)"
    using lin cw by (intro check_codeword) simp_all
  from new pos ecc chk obtain rows where
    rows: "unit_rows rs (nat n) (nat c) [0 ..< nat n * 8] = Inr rows"
    and b: "b = ?b0\<lparr>Tmp := drop (DataBytes ?b0) (B ?b0), M := rows\<rparr>"
    by (auto simp: newBlock_def Let_def bindE_eq_Inr split: if_splits)
  have "\<forall>r \<in> set rows. codeword rs (nat n) (nat c) r"
    using lin rows by (rule unit_rows_codeword)
  with lin cw b show ?thesis
    by (simp add: block_inv_def linear_rs_def)
qed

lemma copyOut_inv: "block_inv b \<Longrightarrow> copyOut b = Inr b' \<Longrightarrow> block_inv b'"
  by (auto simp: copyOut_def bindE_eq_Inr check_Inr block_inv_def codeword_def)

lemma codeword_xor_from:
  assumes "linear_rs rs c" "codeword rs n c u" "codeword rs n c w" "xor_from u w = Inr r"
  shows "codeword rs n c r"
proof -
  from assms(2,3) have "length w = length u" by (simp add: codeword_def)
  with assms(4) have "r = map2 (XOR) u w" by (simp add: xor_from_def)
  with assms(1,2,3) show ?thesis by (simp add: codeword_xor)
qed

lemma reset_inv:
  assumes "block_inv b" "reset b bi bval = Inr b'"
  shows "block_inv b'"
proof (cases "b' = b")
  case True
  with assms show ?thesis by simp
next
  case False
  with assms(2) have "reset_rows b bi (Mret b) = Inr b'"
    by (auto simp: reset_def bindE_eq_Inr split: if_splits)
  from reset_rows_Inr [OF this] obtain k where k: "k < length (Mret b)"
    and b': "b' = b\<lparr>B := map2 (XOR) (take (length (Mret b ! k)) (B b)) (Mret b ! k)
                      @ drop (length (Mret b ! k)) (B b)\<rparr>"
    by blast
  from k assms(1) have cw: "codeword (RS b) (DataBytes b) (CheckBytes b) (Mret b ! k)"
    by (simp add: block_inv_def)
  with assms(1) have "length (Mret b ! k) = length (B b)"
    by (simp add: block_inv_def codeword_def)
  with b' have "b' = b\<lparr>B := map2 (XOR) (B b) (Mret b ! k)\<rparr>" by simp
  moreover have "codeword (RS b) (DataBytes b) (CheckBytes b) (map2 (XOR) (B b) (Mret b ! k))"
    using assms(1) cw by (intro codeword_xor) (simp_all add: block_inv_def)
  ultimately show ?thesis using assms(1) by (simp add: block_inv_def)
qed

lemma canSet_inv:
  assumes inv: "block_inv b" and run: "canSet b bi bval = Inr (ok, b')"
  shows "block_inv b'"
proof (cases ok)
  case False
  with run have "b' = b" by (auto dest: canSet_False_same)
  with inv show ?thesis by simp
next
  case True
  let ?cw = "codeword (RS b) (DataBytes b) (CheckBytes b)"
  from inv have lin: "linear_rs (RS b) (CheckBytes b)" by (simp add: block_inv_def)
  from run True obtain m saved cur B' b1 where
    scan: "canSet_scan bi False (M b) 0 = Inr (True, m)"
    and saved: "canSet_saved bi (m ! 0) (Mret b) = Inr saved"
    and B': "(if cur \<noteq> bval then xor_from (B b) (m ! 0) else Inr (B b)) = Inr B'"
    and chk: "check (b\<lparr>B := B', M := m, Mret := saved\<rparr>) = Inr b1"
    and b': "b' = b1\<lparr>M := take (length m - 1) (m[0 := m ! (length m - 1), length m - 1 := m ! 0]),
             Mret := m ! 0 # saved\<rparr>"
    by (auto elim: canSet_TrueE)
  have m: "\<forall>r \<in> set m. ?cw r"
    using scan inv lin by (intro canSet_scan_pred [OF scan]) (auto simp: block_inv_def codeword_xor)
  have "0 < length m"
    using scan canSet_scan_length canSet_scan_found_nonempty by fastforce
  then have targ: "?cw (m ! 0)" using m by simp
  from saved have "saved = map (\<lambda>row. if has row bi then map2 (XOR) row (m ! 0) else row) (Mret b)"
    by (simp add: canSet_saved_Inr)
  with inv lin targ have sv: "\<forall>r \<in> set saved. ?cw r"
    by (auto simp: block_inv_def codeword_xor)
  have cwB: "?cw B'"
  proof (cases "cur \<noteq> bval")
    case True
    with B' have xf: "xor_from (B b) (m ! 0) = Inr B'" by simp
    from inv have "?cw (B b)" by (simp add: block_inv_def)
    then show ?thesis using targ xf by (rule codeword_xor_from [OF lin])
  next
    case False
    with B' inv show ?thesis by (simp add: block_inv_def)
  qed
  from chk have b1: "b1 = b\<lparr>B := B', M := m, Mret := saved, Tmp := drop (DataBytes b) B'\<rparr>"
    by (simp add: check_Inr)
  have "\<forall>r \<in> set (take (length m - 1) (m[0 := m ! (length m - 1), length m - 1 := m ! 0])). ?cw r"
    using m swap_last_take_set [of m] by blast
  moreover from cwB have "length (drop (DataBytes b) B') = CheckBytes b"
    by (simp add: codeword_def)
  ultimately show ?thesis using b' b1 cwB sv targ lin
    by (auto simp: block_inv_def)
qed

lemma reachable_inv: "reachable b \<Longrightarrow> block_inv b"
  by (induction rule: reachable.induct) (auto intro: newBlock_inv canSet_inv reset_inv copyOut_inv)

lemma reachable_check:
  assumes "reachable b"
  shows "check b = Inr (b\<lparr>Tmp := drop (DataBytes b) (B b)\<rparr>)"
proof -
  from assms have "block_inv b" by (rule reachable_inv)
  then show ?thesis by (intro check_codeword) (simp_all add: block_inv_def)
qed

section \<open>The encoder of QR codes is linear\<close>

lemma length_gf_gen [simp]: "length (gf_gen c) = c"
  by (induction c) simp_all

lemma length_gf_step:
  "length gen = length reg \<Longrightarrow> length (gf_step gen reg d) = length reg"
  by (cases reg) simp_all

lemma length_foldl_gf_step:
  "length gen = length reg \<Longrightarrow> length (foldl (gf_step gen) reg ds) = length reg"
  by (induction ds arbitrary: reg) (simp_all add: length_gf_step)

lemma gf_mul_bits_xor:
  "gf_mul_bits k a (x XOR y) = gf_mul_bits k a x XOR gf_mul_bits k a y"
  by (induction k arbitrary: a x y) (simp_all add: bit_xor_iff drop_bit_xor ac_simps)

lemma gf_mul_xor: "gf_mul a (x XOR y) = gf_mul a x XOR gf_mul a y"
  by (simp add: gf_mul_def gf_mul_bits_xor)

lemma gf_step_xor:
  assumes "length r1 = length r2"
  shows "gf_step gen (map2 (XOR) r1 r2) (d1 XOR d2)
         = map2 (XOR) (gf_step gen r1 d1) (gf_step gen r2 d2)"
proof (cases r1)
  case Nil
  with assms show ?thesis by simp
next
  case (Cons a ra)
  with assms obtain b rb where r2: "r2 = b # rb" and len: "length ra = length rb"
    by (cases r2) auto
  show ?thesis
    unfolding Cons r2 using len
    by (intro nth_equalityI) (simp_all add: nth_append gf_mul_xor ac_simps)
qed

lemma foldl_gf_step_xor:
  assumes "length d1 = length d2" "length r1 = length r2" "length gen = length r1"
  shows "foldl (gf_step gen) (map2 (XOR) r1 r2) (map2 (XOR) d1 d2)
         = map2 (XOR) (foldl (gf_step gen) r1 d1) (foldl (gf_step gen) r2 d2)"
  using assms
proof (induction d1 d2 arbitrary: r1 r2 rule: list_induct2)
  case Nil
  then show ?case by simp
next
  case (Cons x xs y ys)
  then show ?case by (simp add: gf_step_xor length_gf_step)
qed

lemma linear_rs_qr: "linear_rs (rs_qr c) c"
proof -
  have "replicate c (0 :: byte) = map2 (XOR) (replicate c 0) (replicate c 0)"
    by (intro nth_equalityI) simp_all
  then have "rs_qr c (map2 (XOR) d e) = map2 (XOR) (rs_qr c d) (rs_qr c e)"
    if "length d = length e" for d e
    unfolding rs_qr_def using that foldl_gf_step_xor [of d e "replicate c 0" "replicate c 0" "gf_gen c"]
    by simp
  then show ?thesis
    by (simp add: linear_rs_def rs_qr_def length_foldl_gf_step)
qed

section \<open>The bit block: claims\<close>

lemma has_xor_prefix:
  "length src \<le> length dst \<Longrightarrow> c div 8 < length src \<Longrightarrow>
   has (map2 (XOR) (take (length src) dst) src @ drop (length src) dst) c
     = (has dst c \<noteq> has src c)"
  by (auto simp: has_def nth_append bit_xor_iff)

lemma has_xor_prefix_keep:
  "length src \<le> length dst \<Longrightarrow> \<not> has src c \<Longrightarrow>
   has (map2 (XOR) (take (length src) dst) src @ drop (length src) dst) c = has dst c"
  by (auto simp: has_def nth_append bit_xor_iff)

lemma newBlock_RS: "newBlock n c rs dat cdat = Inr b \<Longrightarrow> RS b = rs"
  by (auto simp: newBlock_def Let_def bindE_eq_Inr check_Inr split: if_splits)

lemma canSet_RS: "canSet b bi bval = Inr (ok, b') \<Longrightarrow> RS b' = RS b"
proof (cases ok)
  case True
  assume "canSet b bi bval = Inr (ok, b')"
  with True show ?thesis by (auto elim!: canSet_TrueE simp: check_Inr)
next
  case False
  assume "canSet b bi bval = Inr (ok, b')"
  with False show ?thesis by (auto dest: canSet_False_same)
qed

lemma example_new_eq:
  "newBlock 1 2 (rs_qr 2) [0x41] [0xC3, 0x82] = Inr example_new"
proof -
  have "case newBlock 1 2 (rs_qr 2) [0x41] [0xC3, 0x82] of
          Inr b \<Rightarrow> DataBytes b = DataBytes example_new \<and> CheckBytes b = CheckBytes example_new \<and>
                   B b = B example_new \<and> M b = M example_new \<and> Mret b = Mret example_new \<and>
                   Tmp b = Tmp example_new \<and> bdata b = bdata example_new \<and>
                   cdata b = cdata example_new
        | Inl e \<Rightarrow> False"
    by code_simp
  then obtain b where b: "newBlock 1 2 (rs_qr 2) [0x41] [0xC3, 0x82] = Inr b"
    and f: "DataBytes b = DataBytes example_new" "CheckBytes b = CheckBytes example_new"
      "B b = B example_new" "M b = M example_new" "Mret b = Mret example_new"
      "Tmp b = Tmp example_new" "bdata b = bdata example_new" "cdata b = cdata example_new"
    by (auto split: sum.splits)
  from newBlock_RS [OF b] have "RS b = RS example_new" by (simp add: example_new_def)
  with f have "b = example_new" by (intro BitBlock.equality) simp_all
  with b show ?thesis by simp
qed

lemma example_pinned_eq: "canSet example_new 0 1 = Inr (True, example_pinned)"
proof -
  have "case canSet example_new 0 1 of
          Inr (ok, b) \<Rightarrow> ok \<and>
                   DataBytes b = DataBytes example_pinned \<and>
                   CheckBytes b = CheckBytes example_pinned \<and>
                   B b = B example_pinned \<and> M b = M example_pinned \<and>
                   Mret b = Mret example_pinned \<and>
                   Tmp b = Tmp example_pinned \<and> bdata b = bdata example_pinned \<and>
                   cdata b = cdata example_pinned
        | Inl e \<Rightarrow> False"
    by code_simp
  then obtain b where b: "canSet example_new 0 1 = Inr (True, b)"
    and f: "DataBytes b = DataBytes example_pinned" "CheckBytes b = CheckBytes example_pinned"
      "B b = B example_pinned" "M b = M example_pinned" "Mret b = Mret example_pinned"
      "Tmp b = Tmp example_pinned" "bdata b = bdata example_pinned"
      "cdata b = cdata example_pinned"
    by (auto split: sum.splits)
  from canSet_RS [OF b] have "RS b = RS example_pinned"
    by (simp add: example_new_def example_pinned_def)
  with f have "b = example_pinned" by (intro BitBlock.equality) simp_all
  with b show ?thesis by simp
qed

lemma reachable_example_new: "reachable example_new"
  using linear_rs_qr [of 2] example_new_eq by (intro reachable.new [where c = 2]) simp_all

lemma reachable_example_pinned: "reachable example_pinned"
  using reachable_example_new example_pinned_eq by (rule reachable.canSet)

lemma example_pinned2_eq: "canSet example_pinned 1 1 = Inr (True, example_pinned2)"
proof -
  have "case canSet example_pinned 1 1 of
          Inr (ok, b) \<Rightarrow> ok \<and>
                   DataBytes b = DataBytes example_pinned2 \<and>
                   CheckBytes b = CheckBytes example_pinned2 \<and>
                   B b = B example_pinned2 \<and> M b = M example_pinned2 \<and>
                   Mret b = Mret example_pinned2 \<and>
                   Tmp b = Tmp example_pinned2 \<and> bdata b = bdata example_pinned2 \<and>
                   cdata b = cdata example_pinned2
        | Inl e \<Rightarrow> False"
    by code_simp
  then obtain b where b: "canSet example_pinned 1 1 = Inr (True, b)"
    and f: "DataBytes b = DataBytes example_pinned2" "CheckBytes b = CheckBytes example_pinned2"
      "B b = B example_pinned2" "M b = M example_pinned2" "Mret b = Mret example_pinned2"
      "Tmp b = Tmp example_pinned2" "bdata b = bdata example_pinned2"
      "cdata b = cdata example_pinned2"
    by (auto split: sum.splits)
  from canSet_RS [OF b] have "RS b = RS example_pinned2"
    by (simp add: example_pinned_def example_pinned2_def)
  with f have "b = example_pinned2" by (intro BitBlock.equality) simp_all
  with b show ?thesis by simp
qed

lemma reachable_example_pinned2: "reachable example_pinned2"
  using reachable_example_pinned example_pinned2_eq by (rule reachable.canSet)

text \<open>
  Claim C9. When \<open>canSet\<close> returns false, the block is left as it was before the
  call: the buffer \<open>B\<close>, the active rows, the rows set aside, and every other field.
\<close>

theorem canSet_failure_atomic:
  "canSet b bi bval = Inr (False, b') \<Longrightarrow>
   b' = b \<and> B b' = B b \<and> M b' = M b \<and> Mret b' = Mret b"
  by (auto dest: canSet_False_same)

theorem canSet_failure_atomic_witness:
  "canSet example_pinned 0 1 = Inr (False, example_pinned)"
proof -
  have "case canSet example_pinned 0 1 of Inr (ok, b) \<Rightarrow> \<not> ok | Inl e \<Rightarrow> False"
    by code_simp
  then obtain b' where run: "canSet example_pinned 0 1 = Inr (False, b')"
    by (auto split: sum.splits)
  from canSet_failure_atomic [OF run] run show ?thesis by simp
qed

lemma canSet_scan_no_bit:
  "\<forall>row \<in> set m. bi div 8 < length row \<and> \<not> has row bi \<Longrightarrow>
   canSet_scan bi found m j = Inr (found, m)"
proof (induction bi found m j rule: canSet_scan.induct)
  case (1 bi found m j)
  show ?case
  proof (cases "j < length m")
    case False
    then show ?thesis by (subst canSet_scan_unfold) simp
  next
    case True
    with "1.prems" have "row_has (m ! j) bi = Inr False"
      by (simp add: row_has_eq)
    moreover have "canSet_scan bi found m (j + 1) = Inr (found, m)"
      using "1.IH"(1) [OF True, of False] "1.prems" by simp
    ultimately show ?thesis using True by (subst canSet_scan_unfold) simp
  qed
qed

lemma canSet_False_iff:
  assumes "\<forall>row \<in> set (M b). bi div 8 < length row"
  shows "canSet b bi bval = Inr (False, b) \<longleftrightarrow> (\<forall>row \<in> set (M b). \<not> has row bi)"
proof
  assume "canSet b bi bval = Inr (False, b)"
  then obtain found m where scan: "canSet_scan bi False (M b) 0 = Inr (found, m)"
    and nf: "\<not> found"
    by (auto simp: canSet_def bindE_eq_Inr Let_def split: if_splits)
  then show "\<forall>row \<in> set (M b). \<not> has row bi"
    using canSet_scan_none [of bi "M b" m] by simp
next
  assume "\<forall>row \<in> set (M b). \<not> has row bi"
  with assms have "canSet_scan bi False (M b) 0 = Inr (False, M b)"
    by (intro canSet_scan_no_bit) simp
  then show "canSet b bi bval = Inr (False, b)" by (simp add: canSet_def)
qed

text \<open>
  Claim C6. The number of active rows of a block never grows under the calls that
  \<open>Encode\<close> makes on it: \<open>canSet\<close> that returns true takes exactly one row away,
  \<open>canSet\<close> that returns false and \<open>reset\<close> leave the number as it is.
\<close>

theorem monotone_pinning:
  "(block_op\<^sup>*\<^sup>* b b' \<longrightarrow> length (M b') \<le> length (M b)) \<and>
   (canSet b bi bval = Inr (True, b1) \<longrightarrow> length (M b1) + 1 = length (M b)) \<and>
   (canSet b bi bval = Inr (False, b2) \<longrightarrow> length (M b2) = length (M b)) \<and>
   (reset b bi bval = Inr b3 \<longrightarrow> length (M b3) = length (M b))"
proof -
  have rs: "length (M y) = length (M x)" if "reset x i v = Inr y" for x y i v
  proof (cases "y = x")
    case False
    with that have "reset_rows x i (Mret x) = Inr y"
      by (auto simp: reset_def bindE_eq_Inr split: if_splits)
    from reset_rows_Inr [OF this] show ?thesis by auto
  qed simp
  have cs: "length (M y) \<le> length (M x)" if "canSet x i v = Inr (ok, y)" for x y i v ok
    using that canSet_True_rows [of x i v y] canSet_False_same [of x i v y] by (cases ok) auto
  have co: "length (M y) = length (M x)" if "copyOut x = Inr y" for x y
    using that by (auto simp: copyOut_def bindE_eq_Inr check_Inr)
  have step: "length (M y) \<le> length (M x)" if "block_op x y" for x y
    using that by cases (auto dest: cs rs co)
  have "length (M b') \<le> length (M b)" if "block_op\<^sup>*\<^sup>* b b'"
    using that by (induction rule: rtranclp_induct) (auto dest: step)
  then show ?thesis
    using rs [of b bi bval b3] canSet_True_rows [of b bi bval b1]
      canSet_False_same [of b bi bval b2] by auto
qed

theorem monotone_pinning_witness:
  "block_op\<^sup>*\<^sup>* example_new example_pinned \<and>
   length (M example_pinned) \<le> length (M example_new) \<and>
   canSet example_new 0 1 = Inr (True, example_pinned) \<and>
   length (M example_pinned) + 1 = length (M example_new) \<and>
   (case canSet example_pinned 0 1 of
      Inr (ok, b2) \<Rightarrow> \<not> ok \<and> length (M b2) = length (M example_pinned) | Inl e \<Rightarrow> False) \<and>
   (case reset example_pinned 0 0 of
      Inr b3 \<Rightarrow> B b3 \<noteq> B example_pinned \<and> length (M b3) = length (M example_pinned)
    | Inl e \<Rightarrow> False)"
proof -
  have star: "block_op\<^sup>*\<^sup>* example_new example_pinned"
    using example_pinned_eq by (intro r_into_rtranclp block_op.op_canSet)
  have "case canSet example_pinned 0 1 of Inr (ok, b) \<Rightarrow> \<not> ok | Inl e \<Rightarrow> False"
    by code_simp
  then obtain b2 where run2: "canSet example_pinned 0 1 = Inr (False, b2)"
    by (auto split: sum.splits)
  have "case reset example_pinned 0 0 of Inr b \<Rightarrow> B b \<noteq> B example_pinned | Inl e \<Rightarrow> False"
    by code_simp
  then obtain b3 where run3: "reset example_pinned 0 0 = Inr b3" "B b3 \<noteq> B example_pinned"
    by (auto split: sum.splits)
  show ?thesis
    using monotone_pinning [of example_new example_pinned 0 1 example_pinned]
      monotone_pinning [of example_pinned _ 0 1 _ b2]
      monotone_pinning [of example_pinned _ 0 0 _ _ b3]
      star example_pinned_eq run2 run3
    by simp
qed

text \<open>
  Claim C7. \<open>reset(i, v)\<close> returns with nothing changed when bit \<open>i\<close> of \<open>B\<close> is
  \<open>v\<close> already. Otherwise, when row \<open>k\<close> is the first of the rows set aside that has
  a 1 at column \<open>i\<close>, it returns, it has added that row to \<open>B\<close>, nothing else has
  changed, and bit \<open>i\<close> of \<open>B\<close> is \<open>v\<close> (for a bit value \<open>v\<close>, 0 or 1); in a block
  that the program can reach it returns whenever some row set aside has a 1 at
  column \<open>i\<close>. Whenever it returns with bit \<open>i\<close> not \<open>v\<close> before, it has done just
  that. It panics with "reset of unset bit" when no row set aside has a 1 at column
  \<open>i\<close>, and with an index out of range when \<open>B\<close> has no bit \<open>i\<close>.
\<close>

theorem reset_spec:
  "(get_bit (B b) bi = Inr bval \<longrightarrow> reset b bi bval = Inr b) \<and>
   (bi div 8 < length (B b) \<and> get_bit (B b) bi \<noteq> Inr bval \<and>
    k < length (Mret b) \<and> has (Mret b ! k) bi \<and>
    (\<forall>i<k. bi div 8 < length (Mret b ! i) \<and> \<not> has (Mret b ! i) bi) \<and>
    length (Mret b ! k) \<le> length (B b) \<longrightarrow>
      (\<exists>b1. reset b bi bval = Inr b1 \<and> xor_from (B b) (Mret b ! k) = Inr (B b1) \<and>
            b1 = b\<lparr>B := B b1\<rparr> \<and>
            (bval = 0 \<or> bval = 1 \<longrightarrow> get_bit (B b1) bi = Inr bval))) \<and>
   (reachable b \<and> bi div 8 < length (B b) \<and> get_bit (B b) bi \<noteq> Inr bval \<and>
    (\<exists>row \<in> set (Mret b). has row bi) \<longrightarrow>
      (\<exists>b2 row. reset b bi bval = Inr b2 \<and> row \<in> set (Mret b) \<and> has row bi \<and>
            xor_from (B b) row = Inr (B b2) \<and> b2 = b\<lparr>B := B b2\<rparr>)) \<and>
   (reset b bi bval = Inr b' \<and> get_bit (B b) bi \<noteq> Inr bval \<longrightarrow>
      (\<exists>k < length (Mret b).
          has (Mret b ! k) bi \<and> (\<forall>i<k. \<not> has (Mret b ! i) bi) \<and>
          xor_from (B b) (Mret b ! k) = Inr (B b') \<and> b' = b\<lparr>B := B b'\<rparr>) \<and>
      (bval = 0 \<or> bval = 1 \<longrightarrow> get_bit (B b') bi = Inr bval)) \<and>
   (bi div 8 < length (B b) \<and> get_bit (B b) bi \<noteq> Inr bval \<and>
    (\<forall>row \<in> set (Mret b). bi div 8 < length row \<and> \<not> has row bi) \<longrightarrow>
      reset b bi bval = Inl (Panic ''reset of unset bit'')) \<and>
   (\<not> bi div 8 < length (B b) \<longrightarrow> reset b bi bval = Inl RuntimePanic)"
proof -
  have same: "reset b bi bval = Inr b" if "get_bit (B b) bi = Inr bval"
    using that by (simp add: reset_def)
  have returned: "(\<exists>k < length (Mret b).
          has (Mret b ! k) bi \<and> (\<forall>i<k. \<not> has (Mret b ! i) bi) \<and>
          xor_from (B b) (Mret b ! k) = Inr (B b') \<and> b' = b\<lparr>B := B b'\<rparr>) \<and>
      (bval = 0 \<or> bval = 1 \<longrightarrow> get_bit (B b') bi = Inr bval)"
    if a: "reset b bi bval = Inr b' \<and> get_bit (B b) bi \<noteq> Inr bval" for b'
  proof -
    from a obtain cur where cur: "get_bit (B b) bi = Inr cur" "cur \<noteq> bval"
      and rows: "reset_rows b bi (Mret b) = Inr b'"
      by (auto simp: reset_def bindE_eq_Inr split: if_splits)
    from reset_rows_Inr [OF rows] obtain k where k: "k < length (Mret b)"
      "has (Mret b ! k) bi" "\<forall>i<k. \<not> has (Mret b ! i) bi"
      "length (Mret b ! k) \<le> length (B b)"
      "b' = b\<lparr>B := map2 (XOR) (take (length (Mret b ! k)) (B b)) (Mret b ! k)
                        @ drop (length (Mret b ! k)) (B b)\<rparr>"
      by blast
    from k(4,5) have x: "xor_from (B b) (Mret b ! k) = Inr (B b')" "b' = b\<lparr>B := B b'\<rparr>"
      by (simp_all add: xor_from_def)
    have "get_bit (B b') bi = Inr bval" if v: "bval = 0 \<or> bval = 1"
    proof -
      from k(2) have inb: "bi div 8 < length (Mret b ! k)" by (simp add: has_def)
      from cur have c: "cur = of_bool (has (B b) bi)" by (simp add: get_bit_Inr)
      have "has (B b') bi = (\<not> has (B b) bi)"
        using k(2,4,5) inb by (simp add: has_xor_prefix)
      moreover have "bi div 8 < length (B b')"
        using k(4,5) inb by simp
      ultimately have "get_bit (B b') bi = Inr (of_bool (\<not> has (B b) bi))"
        by (simp add: get_bit_Inr)
      with v c cur(2) show ?thesis by (auto split: if_splits)
    qed
    with k x show ?thesis by blast
  qed
  have returns: "\<exists>b1. reset b bi bval = Inr b1 \<and> xor_from (B b) (Mret b ! k) = Inr (B b1) \<and>
            b1 = b\<lparr>B := B b1\<rparr> \<and>
            (bval = 0 \<or> bval = 1 \<longrightarrow> get_bit (B b1) bi = Inr bval)"
    if a: "bi div 8 < length (B b)" "get_bit (B b) bi \<noteq> Inr bval"
      "k < length (Mret b)" "has (Mret b ! k) bi"
      "\<forall>i<k. bi div 8 < length (Mret b ! i) \<and> \<not> has (Mret b ! i) bi"
      "length (Mret b ! k) \<le> length (B b)" for k
  proof -
    from a(1,2) obtain cur where cur: "get_bit (B b) bi = Inr cur" "cur \<noteq> bval"
      by (auto simp: get_bit_def)
    from a(6) obtain B' where B': "xor_from (B b) (Mret b ! k) = Inr B'"
      by (auto simp: xor_from_def)
    from reset_rows_first [OF a(3,4,5), of b] B'
    have rows: "reset_rows b bi (Mret b) = Inr (b\<lparr>B := B'\<rparr>)" by simp
    with cur have run: "reset b bi bval = Inr (b\<lparr>B := B'\<rparr>)" by (simp add: reset_def)
    from returned [of "b\<lparr>B := B'\<rparr>"] run a(2)
    have "bval = 0 \<or> bval = 1 \<longrightarrow> get_bit B' bi = Inr bval" by simp
    with run B' show ?thesis by simp
  qed
  have reach: "\<exists>b2 row. reset b bi bval = Inr b2 \<and> row \<in> set (Mret b) \<and> has row bi \<and>
            xor_from (B b) row = Inr (B b2) \<and> b2 = b\<lparr>B := B b2\<rparr>"
    if a: "reachable b" "bi div 8 < length (B b)" "get_bit (B b) bi \<noteq> Inr bval"
      "\<exists>row \<in> set (Mret b). has row bi"
  proof -
    from reachable_inv [OF a(1)]
    have len: "length r = length (B b)" if "r \<in> set (Mret b)" for r
      using that by (auto simp: block_inv_def codeword_def)
    from first_row_with_bit [OF a(4)] obtain k where k: "k < length (Mret b)"
      "has (Mret b ! k) bi" "\<forall>i<k. \<not> has (Mret b ! i) bi"
      by blast
    have "\<forall>i<k. bi div 8 < length (Mret b ! i) \<and> \<not> has (Mret b ! i) bi"
      using k(1,3) a(2) len by simp
    moreover have "length (Mret b ! k) \<le> length (B b)" using k(1) len by simp
    ultimately obtain b1 where "reset b bi bval = Inr b1"
      "xor_from (B b) (Mret b ! k) = Inr (B b1)" "b1 = b\<lparr>B := B b1\<rparr>"
      using returns [OF a(2,3) k(1,2)] by blast
    with k(1,2) show ?thesis by (metis nth_mem)
  qed
  have none: "reset b bi bval = Inl (Panic ''reset of unset bit'')"
    if a: "bi div 8 < length (B b) \<and> get_bit (B b) bi \<noteq> Inr bval \<and>
      (\<forall>row \<in> set (Mret b). bi div 8 < length row \<and> \<not> has row bi)"
  proof -
    from a obtain cur where "get_bit (B b) bi = Inr cur" "cur \<noteq> bval"
      by (auto simp: get_bit_def)
    with a show ?thesis by (simp add: reset_def reset_rows_panic)
  qed
  have out: "reset b bi bval = Inl RuntimePanic" if "\<not> bi div 8 < length (B b)"
    using that by (simp add: reset_def get_bit_def)
  from same returned returns reach none out show ?thesis by blast
qed

theorem reset_spec_witness:
  "reset example_pinned 0 1 = Inr example_pinned \<and>
   length (Mret example_pinned2) = 2 \<and> \<not> has (Mret example_pinned2 ! 0) 0 \<and>
   has (Mret example_pinned2 ! 1) 0 \<and> reachable example_pinned2 \<and>
   get_bit (B example_pinned2) 0 = Inr 1 \<and>
   (case reset example_pinned2 0 0 of
      Inr b' \<Rightarrow> B b' = [65, 195, 130] \<and> get_bit (B b') 0 = Inr 0 \<and>
               xor_from (B example_pinned2) (Mret example_pinned2 ! 1) = Inr (B b')
    | Inl e \<Rightarrow> False) \<and>
   get_bit (B example_new) 0 = Inr 0 \<and> Mret example_new = [] \<and>
   reset example_new 0 1 = Inl (Panic ''reset of unset bit'') \<and>
   reset example_new 24 1 = Inl RuntimePanic"
proof -
  have g1: "get_bit (B example_pinned) 0 = Inr 1" by code_simp
  have g2: "get_bit (B example_pinned2) 0 = Inr 1" "0 div 8 < length (B example_pinned2)"
    "length (Mret example_pinned2) = 2" "\<not> has (Mret example_pinned2 ! 0) 0"
    "has (Mret example_pinned2 ! 1) 0" "0 div 8 < length (Mret example_pinned2 ! 0)"
    "length (Mret example_pinned2 ! 1) \<le> length (B example_pinned2)"
    "Mret example_pinned2 ! 1 \<in> set (Mret example_pinned2)"
    by code_simp+
  have g0: "get_bit (B example_new) 0 = Inr 0" "Mret example_new = []"
    "0 div 8 < length (B example_new)" "\<not> 24 div 8 < length (B example_new)"
    by code_simp+
  have x: "xor_from (B example_pinned2) (Mret example_pinned2 ! 1) = Inr [65, 195, 130]"
    by code_simp
  have pre: "\<forall>i<1. 0 div 8 < length (Mret example_pinned2 ! i) \<and>
      \<not> has (Mret example_pinned2 ! i) 0"
    using g2(4,6) by simp
  have ne: "get_bit (B example_pinned2) 0 \<noteq> Inr 0" using g2(1) by simp
  from reset_spec [of example_pinned2 0 0 1, THEN conjunct2, THEN conjunct1] g2 pre ne
  obtain b1 where run: "reset example_pinned2 0 0 = Inr b1"
    "xor_from (B example_pinned2) (Mret example_pinned2 ! 1) = Inr (B b1)"
    "get_bit (B b1) 0 = Inr 0"
    by auto
  from reset_spec [of example_pinned2 0 0, THEN conjunct2, THEN conjunct2, THEN conjunct1]
    reachable_example_pinned2 g2 ne
  have "\<exists>b2. reset example_pinned2 0 0 = Inr b2" by blast
  moreover from reset_spec [of example_pinned 0 1] g1
  have "reset example_pinned 0 1 = Inr example_pinned" by simp
  moreover from reset_spec [of example_new 0 1] g0
  have "reset example_new 0 1 = Inl (Panic ''reset of unset bit'')" by simp
  moreover from reset_spec [of example_new 24 1] g0
  have "reset example_new 24 1 = Inl RuntimePanic" by simp
  ultimately show ?thesis using run x g2 g0 reachable_example_pinned2 by simp
qed

text \<open>
  Claim C1. Every block that the program can reach has its check bytes equal to the
  Reed-Solomon check bytes of its data bytes, \<open>ECC(B[:nd]) = B[nd:]\<close>: the fresh
  block, and the block after every \<open>canSet\<close> that returns true, after every \<open>reset\<close>
  and after every \<open>copyOut\<close>.
\<close>

theorem ecc_closure:
  assumes "reachable b"
  shows "ecc_closed b \<and>
         (canSet b bi bval = Inr (True, b1) \<longrightarrow> ecc_closed b1) \<and>
         (reset b bi bval = Inr b2 \<longrightarrow> ecc_closed b2) \<and>
         (copyOut b = Inr b3 \<longrightarrow> ecc_closed b3)"
  using assms
  by (auto intro!: block_inv_closed reachable_inv
           intro: reachable.canSet reachable.reset reachable.copyOut)

theorem ecc_closure_witness:
  "reachable example_pinned \<and> ecc_closed example_pinned \<and>
   (case canSet example_pinned 1 1 of Inr (ok, b1) \<Rightarrow> ok \<and> ecc_closed b1 | Inl e \<Rightarrow> False) \<and>
   (case reset example_pinned 0 0 of
      Inr b2 \<Rightarrow> B b2 \<noteq> B example_pinned \<and> ecc_closed b2 | Inl e \<Rightarrow> False) \<and>
   (case copyOut example_pinned of Inr b3 \<Rightarrow> ecc_closed b3 | Inl e \<Rightarrow> False)"
proof -
  have "case canSet example_pinned 1 1 of Inr (ok, b) \<Rightarrow> ok | Inl e \<Rightarrow> False"
    by code_simp
  then obtain b1 where run1: "canSet example_pinned 1 1 = Inr (True, b1)"
    by (auto split: sum.splits)
  have "case reset example_pinned 0 0 of Inr b \<Rightarrow> B b \<noteq> B example_pinned | Inl e \<Rightarrow> False"
    by code_simp
  then obtain b2 where run2: "reset example_pinned 0 0 = Inr b2" "B b2 \<noteq> B example_pinned"
    by (auto split: sum.splits)
  have "case copyOut example_pinned of Inr b \<Rightarrow> True | Inl e \<Rightarrow> False"
    by code_simp
  then obtain b3 where run3: "copyOut example_pinned = Inr b3"
    by (auto split: sum.splits)
  show ?thesis
    using ecc_closure [OF reachable_example_pinned, of 1 1 b1]
      ecc_closure [OF reachable_example_pinned, of 0 0 _ b2]
      ecc_closure [OF reachable_example_pinned, of _ _ _ _ b3]
      reachable_example_pinned run1 run2 run3
    by simp
qed

section \<open>Clamp and the rotation of the plan: claims\<close>

lemma collect_map_Inr:
  "(\<And>x. x \<in> set xs \<Longrightarrow> f x = Inr (g x)) \<Longrightarrow> collect (map f xs) = Inr (map g xs)"
  by (induction xs) simp_all

lemma rotate_grid_square:
  assumes sq: "\<forall>row \<in> set P. length row = length P"
    and src: "\<And>y x. y < length P \<Longrightarrow> x < length P \<Longrightarrow>
                fst (src y x) < length P \<and> snd (src y x) < length P"
  shows "rotate_grid P src =
           Inr (map (\<lambda>y. map (\<lambda>x. P ! fst (src y x) ! snd (src y x)) [0 ..< length P])
                  [0 ..< length P])"
proof -
  have cell: "(case src y x of (r, c) \<Rightarrow> at2 P r c) = Inr (P ! fst (src y x) ! snd (src y x))"
    if "y < length P" "x < length P" for y x
    using src [OF that] sq by (auto simp: at2_def split: prod.splits)
  have row: "collect (map (\<lambda>x. case src y x of (r, c) \<Rightarrow> at2 P r c) [0 ..< length P])
             = Inr (map (\<lambda>x. P ! fst (src y x) ! snd (src y x)) [0 ..< length P])"
    if "y < length P" for y
    by (rule collect_map_Inr) (use that cell in auto)
  show ?thesis
    unfolding rotate_grid_def Let_def by (rule collect_map_Inr) (use row in auto)
qed











text \<open>
  Claim C5, as the code has it. On a plan of \<open>N\<close> rows of \<open>N\<close> modules, rotation 1
  returns a plan in which only the grid has changed and the module that was at
  column \<open>x\<close> and row \<open>y\<close> (\<open>p.Pixel[y][x]\<close>) stands, unchanged in its value and so
  in its role and offset, at column \<open>y\<close> and row \<open>N-1-x\<close>; rotation 0 returns the plan
  as it is.
\<close>

theorem rotate_spec:
  assumes "\<forall>row \<in> set (Pixel p). length row = length (Pixel p)"
  shows "rotate_plan p 0 = Inr p \<and>
         (\<exists>p'. rotate_plan p 1 = Inr p' \<and> p' = p\<lparr>Pixel := Pixel p'\<rparr> \<and>
            length (Pixel p') = length (Pixel p) \<and>
            (\<forall>x < length (Pixel p). \<forall>y < length (Pixel p).
               length (Pixel p' ! y) = length (Pixel p) \<and>
               Pixel p' ! (length (Pixel p) - 1 - x) ! y = Pixel p ! y ! x))"
proof -
  let ?N = "length (Pixel p)"
  let ?G = "map (\<lambda>y. map (\<lambda>x. Pixel p ! x ! (?N - 1 - y)) [0 ..< ?N]) [0 ..< ?N]"
  have "rotate_grid (Pixel p) (\<lambda>y x. (x, ?N - 1 - y)) = Inr ?G"
    using rotate_grid_square [OF assms, of "\<lambda>y x. (x, ?N - 1 - y)"] by simp
  then have "rotate_plan p 1 = Inr (p\<lparr>Pixel := ?G\<rparr>)"
    by (simp add: rotate_plan_def Let_def)
  moreover have "?G ! (?N - 1 - x) ! y = Pixel p ! y ! x" if "x < ?N" "y < ?N" for x y
    using that by simp
  ultimately show ?thesis by (simp add: rotate_plan_def)
qed

theorem rotate_spec_witness:
  "rotate_plan example_plan 0 = Inr example_plan \<and>
   rotate_plan example_plan 1 = Inr (example_plan\<lparr>Pixel := [[2, 4], [1, 3]]\<rparr>) \<and>
   Pixel example_plan ! 0 ! 1 = 2 \<and> [[2, 4], [1, 3 :: Pixel]] ! (2 - 1 - 1) ! 0 = 2"
proof -
  have sq: "\<forall>row \<in> set (Pixel example_plan). length row = length (Pixel example_plan)"
    by (simp add: example_plan_def)
  have r: "rotate_plan example_plan 1 = Inr (example_plan\<lparr>Pixel := [[2, 4], [1, 3]]\<rparr>)"
    by code_simp
  from rotate_spec [OF sq] r show ?thesis by (simp add: example_plan_def)
qed

theorem rotate_claim_counterexample:
  "rotate_plan example_plan 1 = Inr (example_plan\<lparr>Pixel := [[2, 4], [1, 3]]\<rparr>) \<and>
   Pixel example_plan ! 0 ! 0 = 1 \<and>
   Pixel (example_plan\<lparr>Pixel := [[2, 4], [1, 3]]\<rparr>) ! 0 ! (2 - 1 - 0) = 4"
  by code_simp

section \<open>The target picture: claims\<close>

lemma wrap64_id: "- (2 ^ 63) \<le> i \<Longrightarrow> i < 2 ^ 63 \<Longrightarrow> wrap64 i = i"
  by (simp add: wrap64_def)

lemma fold_rows_cells:
  "fold (\<lambda>dy. fold (\<lambda>dx. f (ty + dy) (tx + dx)) ds) dys acc
   = fold (\<lambda>(r, c). f r c) (concat (map (\<lambda>dy. map (\<lambda>dx. (ty + dy, tx + dx)) ds) dys)) acc"
  by (induction dys arbitrary: acc) (simp_all add: fold_map comp_def)

lemma cell_values_Cons:
  "cell_values T ((r, c) # cs) =
     (if 0 \<le> r \<and> r < int (length T) \<and> 0 \<le> c \<and> c < int (length (T ! nat r))
      then T ! nat r ! nat c # cell_values T cs else cell_values T cs)"
  by (simp add: cell_values_def)

lemma cell_values_Nil [simp]: "cell_values T [] = []"
  by (simp add: cell_values_def)

lemma valid_target_nth:
  assumes "valid_target T" "0 \<le> r" "r < int (length T)" "0 \<le> c" "c < int (length (T ! nat r))"
  shows "-1 \<le> T ! nat r ! nat c \<and> T ! nat r ! nat c \<le> 255"
proof -
  from assms have "T ! nat r \<in> set T" by (intro nth_mem) simp
  moreover from assms have "T ! nat r ! nat c \<in> set (T ! nat r)" by (intro nth_mem) simp
  ultimately show ?thesis using assms(1) by (simp add: valid_target_def)
qed

lemma cell_values_valid:
  "valid_target T \<Longrightarrow> v \<in> set (cell_values T cs) \<Longrightarrow> -1 \<le> v \<and> v \<le> 255"
  by (auto simp: cell_values_def dest: valid_target_nth split: if_splits)

lemma fold_target_cell:
  assumes "valid_target T"
    and "\<bar>s\<bar> + 255 * int (length cs) < 2 ^ 62"
    and "0 \<le> q" "q + 65025 * int (length cs) < 2 ^ 62"
  shows "fold (\<lambda>(r, c). target_cell T r c) cs (n, s, q)
         = (n + int (length (cell_values T cs)), s + sum_list (cell_values T cs),
            q + (\<Sum>v\<leftarrow>cell_values T cs. v * v))"
  using assms(2-)
proof (induction cs arbitrary: n s q)
  case Nil
  then show ?case by simp
next
  case (Cons rc cs)
  obtain r c where rc: "rc = (r, c)" by (cases rc)
  show ?case
  proof (cases "0 \<le> r \<and> r < int (length T) \<and> 0 \<le> c \<and> c < int (length (T ! nat r))")
    case False
    then have "target_cell T r c (n, s, q) = (n, s, q)"
      by (auto simp: target_cell_def)
    moreover have "cell_values T (rc # cs) = cell_values T cs"
      using False rc by (simp add: cell_values_Cons)
    ultimately show ?thesis
      using Cons.IH [of s q n] Cons.prems rc by simp
  next
    case True
    let ?v = "T ! nat r ! nat c"
    have cv: "cell_values T (rc # cs) = ?v # cell_values T cs"
      using True rc by (simp add: cell_values_Cons)
    then have "?v \<in> set (cell_values T (rc # cs))" by simp
    with assms(1) have v: "-1 \<le> ?v" "?v \<le> 255" by (auto dest: cell_values_valid)
    then have vv: "0 \<le> ?v * ?v" "?v * ?v \<le> 65025"
    proof -
      show "0 \<le> ?v * ?v" by simp
      have "\<bar>?v\<bar> \<le> 255" using v by simp
      then have "\<bar>?v\<bar> * \<bar>?v\<bar> \<le> 255 * 255" by (intro mult_mono) simp_all
      then show "?v * ?v \<le> 65025" by (simp add: abs_mult_self_eq)
    qed
    have w1: "wrap64 (?v * ?v) = ?v * ?v"
    proof (rule wrap64_id)
      have "(0 :: int) \<le> 2 ^ 63" by simp
      with vv(1) show "- (2 ^ 63) \<le> ?v * ?v" by linarith
      have "(65025 :: int) < 2 ^ 63" by simp
      with vv(2) show "?v * ?v < 2 ^ 63" by linarith
    qed
    have w2: "wrap64 (q + ?v * ?v) = q + ?v * ?v"
    proof (rule wrap64_id)
      have "(0 :: int) \<le> 2 ^ 63" by simp
      with vv(1) Cons.prems(2) show "- (2 ^ 63) \<le> q + ?v * ?v" by linarith
      have "(2 :: int) ^ 62 < 2 ^ 63" by simp
      with vv(2) Cons.prems(3) show "q + ?v * ?v < 2 ^ 63" by simp
    qed
    have w3: "wrap64 (s + ?v) = s + ?v"
      using v Cons.prems by (intro wrap64_id) simp_all
    have step: "target_cell T r c (n, s, q) = (n + 1, s + ?v, q + ?v * ?v)"
      using True by (simp add: target_cell_def Let_def w1 w2 w3)
    have "fold (\<lambda>(r, c). target_cell T r c) cs (n + 1, s + ?v, q + ?v * ?v)
          = (n + 1 + int (length (cell_values T cs)), s + ?v + sum_list (cell_values T cs),
             q + ?v * ?v + (\<Sum>v\<leftarrow>cell_values T cs. v * v))"
    proof (rule Cons.IH)
      show "\<bar>s + ?v\<bar> + 255 * int (length cs) < 2 ^ 62"
        using v Cons.prems(1) by simp
      show "0 \<le> q + ?v * ?v" using vv(1) Cons.prems(2) by linarith
      show "q + ?v * ?v + 65025 * int (length cs) < 2 ^ 62"
        using vv(2) Cons.prems(3) by simp
    qed
    with step cv rc show ?thesis by simp
  qed
qed


lemma upto_del_range: "[i - 5 .. i + 5] = map (\<lambda>d. i + d) del_range"
  by (simp add: del_range_def upto.simps)

lemma cell_values_append: "cell_values T (xs @ ys) = cell_values T xs @ cell_values T ys"
  by (simp add: cell_values_def)

lemma cell_values_concat:
  "cell_values T (concat xss) = concat (map (cell_values T) xss)"
  by (induction xss) (simp_all add: cell_values_append)

lemma cell_values_row:
  "cell_values T (map (\<lambda>dx. (r, c0 + dx)) ds)
   = concat (map (\<lambda>dx.
       if 0 \<le> r \<and> r < int (length T) \<and> 0 \<le> c0 + dx \<and> c0 + dx < int (length (T ! nat r))
       then [T ! nat r ! nat (c0 + dx)] else []) ds)"
  by (simp add: cell_values_def comp_def)

lemma window_cells:
  "window T ty tx
   = cell_values T (concat (map (\<lambda>dy. map (\<lambda>dx. (ty + dy, tx + dx)) del_range) del_range))"
  by (simp add: window_def upto_del_range cell_values_concat comp_def cell_values_row)

lemma length_del_range: "length del_range = 11"
  by (simp add: del_range_def)

lemma length_cells:
  "length (concat (map (\<lambda>dy. map (\<lambda>dx. (ty + dy, tx + dx)) del_range) del_range)) = 121"
  by (simp add: del_range_def)

lemma length_cell_values: "length (cell_values T cs) \<le> length cs"
  by (induction cs) (auto simp: cell_values_Cons)

lemma length_window: "length (window T ty tx) \<le> 121"
  using length_cell_values [of T "concat (map (\<lambda>dy. map (\<lambda>dx. (ty + dy, tx + dx)) del_range) del_range)"]
  by (simp only: window_cells length_cells)

lemma window_valid:
  "valid_target T \<Longrightarrow> v \<in> set (window T ty tx) \<Longrightarrow> -1 \<le> v \<and> v \<le> 255"
  by (simp only: window_cells) (rule cell_values_valid)

lemma centre_in_window:
  assumes "0 \<le> ty" "ty < int (length T)" "0 \<le> tx" "tx < int (length (T ! nat ty))"
  shows "T ! nat ty ! nat tx \<in> set (window T ty tx)"
proof -
  have "(ty, tx) \<in> set (concat (map (\<lambda>dy. map (\<lambda>dx. (ty + dy, tx + dx)) del_range) del_range))"
    by (simp add: del_range_def)
  with assms show ?thesis
    by (simp only: window_cells) (force simp: cell_values_def)
qed

lemma target_sums_window:
  assumes "valid_target T"
  shows "target_sums T ty tx
         = (int (length (window T ty tx)), sum_list (window T ty tx),
            (\<Sum>v\<leftarrow>window T ty tx. v * v))"
proof -
  let ?cs = "concat (map (\<lambda>dy. map (\<lambda>dx. (ty + dy, tx + dx)) del_range) del_range)"
  have "fold (\<lambda>(r, c). target_cell T r c) ?cs (0, 0, 0)
        = (0 + int (length (cell_values T ?cs)), 0 + sum_list (cell_values T ?cs),
           0 + (\<Sum>v\<leftarrow>cell_values T ?cs. v * v))"
    using assms by (rule fold_target_cell) (simp_all only: length_cells, simp_all)
  then show ?thesis
    by (simp add: target_sums_def fold_rows_cells window_cells)
qed

lemma abs_sum_list_le:
  "\<forall>v \<in> set vs. \<bar>v\<bar> \<le> k \<Longrightarrow> \<bar>sum_list vs\<bar> \<le> k * int (length vs)" for k :: int
  by (induction vs) (auto simp: algebra_simps)

lemma sum_squares_le:
  "\<forall>v \<in> set vs. \<bar>v\<bar> \<le> 255 \<Longrightarrow>
   0 \<le> (\<Sum>v\<leftarrow>vs. v * v) \<and> (\<Sum>v\<leftarrow>vs. v * v) \<le> 65025 * int (length vs)" for vs :: "int list"
proof (induction vs)
  case Nil
  then show ?case by simp
next
  case (Cons v vs)
  then have "\<bar>v\<bar> \<le> 255" by simp
  then have "\<bar>v\<bar> * \<bar>v\<bar> \<le> 255 * 255" by (intro mult_mono) simp_all
  then have "v * v \<le> 65025" by (simp add: abs_mult_self_eq)
  moreover have "0 \<le> v * v" by simp
  ultimately show ?case using Cons by (simp add: algebra_simps)
qed

lemma sum_shifted_squares:
  "(\<Sum>v\<leftarrow>vs. (v - a) * (v - a))
   = (\<Sum>v\<leftarrow>vs. v * v) - 2 * a * sum_list vs + int (length vs) * (a * a)" for a :: int
  by (induction vs) (simp_all add: algebra_simps)

lemma sdiv_pos_parts:
  fixes s n :: int
  assumes "0 < n"
  shows "(s sdiv n) * (s - n * (s sdiv n)) \<ge> 0"
proof (cases "0 \<le> s")
  case True
  with assms have "s sdiv n = s div n" by (simp add: signed_divide_int_def sgn_if)
  moreover have "s - n * (s div n) = s mod n" by (simp add: minus_mult_div_eq_mod)
  moreover have "0 \<le> s div n" "0 \<le> s mod n"
    using True assms by (simp_all add: pos_imp_zdiv_nonneg_iff)
  ultimately show ?thesis by simp
next
  case False
  with assms have a: "s sdiv n = - ((- s) div n)" by (simp add: signed_divide_int_def sgn_if)
  have f: "(- s) - n * ((- s) div n) = (- s) mod n" by (simp add: minus_mult_div_eq_mod)
  have "s - n * (s sdiv n) = s + n * ((- s) div n)" by (simp add: a)
  also have "\<dots> = - ((- s) mod n)" using f by linarith
  finally have b: "s - n * (s sdiv n) = - ((- s) mod n)" .
  have "0 \<le> (- s) div n" "0 \<le> (- s) mod n"
    using False assms by (simp_all add: pos_imp_zdiv_nonneg_iff)
  then have nn: "0 \<le> ((- s) div n) * ((- s) mod n)" by simp
  have "(s sdiv n) * (s - n * (s sdiv n)) = (s sdiv n) * (- ((- s) mod n))"
    by (simp only: b)
  also have "\<dots> = ((- s) div n) * ((- s) mod n)" by (simp add: a)
  finally show ?thesis using nn by simp
qed

lemma variance_nonneg:
  assumes "vs \<noteq> []"
  shows "0 \<le> variance vs"
proof -
  let ?n = "int (length vs)" and ?S = "sum_list vs" and ?Q = "(\<Sum>v\<leftarrow>vs. v * v)"
  let ?a = "?S sdiv ?n"
  from assms have n: "0 < ?n" by simp
  have "0 \<le> (\<Sum>v\<leftarrow>vs. (v - ?a) * (v - ?a))"
    by (intro sum_list_nonneg) auto
  then have "0 \<le> ?Q - 2 * ?a * ?S + ?n * (?a * ?a)"
    by (simp only: sum_shifted_squares)
  moreover have "0 \<le> ?a * (?S - ?n * ?a)" using n by (rule sdiv_pos_parts)
  ultimately have "?n * (?a * ?a) \<le> ?Q" by (simp add: algebra_simps)
  then have "(?n * (?a * ?a)) div ?n \<le> ?Q div ?n"
    using n by (intro zdiv_mono1) simp_all
  then have "?a * ?a \<le> ?Q div ?n"
    using n by simp
  moreover have "0 \<le> ?Q" by (intro sum_list_nonneg) auto
  then have "?Q sdiv ?n = ?Q div ?n"
    using n by (simp add: signed_divide_int_def sgn_if)
  ultimately show ?thesis by (simp add: variance_def power2_eq_square)
qed


lemma int_div_le_self:
  fixes x n :: int
  shows "0 \<le> x \<Longrightarrow> 0 < n \<Longrightarrow> x div n \<le> x"
  using zdiv_mono2 [of x 1 n] by simp

lemma abs_sdiv_le:
  fixes s n :: int
  assumes "0 < n"
  shows "\<bar>s sdiv n\<bar> \<le> \<bar>s\<bar>"
proof (cases "0 \<le> s")
  case True
  with assms have "s sdiv n = s div n" by (simp add: signed_divide_int_def sgn_if)
  moreover have "0 \<le> s div n" using True assms by (simp add: pos_imp_zdiv_nonneg_iff)
  moreover have "s div n \<le> s" using True assms by (rule int_div_le_self)
  ultimately show ?thesis using True by simp
next
  case False
  with assms have "s sdiv n = - ((- s) div n)" by (simp add: signed_divide_int_def sgn_if)
  moreover have "0 \<le> (- s) div n" using False assms by (simp add: pos_imp_zdiv_nonneg_iff)
  moreover have "(- s) div n \<le> - s" using False assms by (intro int_div_le_self) simp_all
  ultimately show ?thesis using False by simp
qed

lemma target_inside:
  assumes valid: "valid_target (Target m)"
    and x: "- (2 ^ 63) \<le> x + Dx m" "x + Dx m < 2 ^ 63"
    and y: "- (2 ^ 63) \<le> y + Dy m" "y + Dy m < 2 ^ 63"
    and inside: "0 \<le> y + Dy m" "y + Dy m < int (length (Target m))"
      "0 \<le> x + Dx m" "x + Dx m < int (length (Target m ! nat (y + Dy m)))"
    and set: "0 \<le> Target m ! nat (y + Dy m) ! nat (x + Dx m)"
  shows "target m x y = (word_of_int (Target m ! nat (y + Dy m) ! nat (x + Dx m)),
                         variance (window (Target m) (y + Dy m) (x + Dx m)))"
    and "0 \<le> variance (window (Target m) (y + Dy m) (x + Dx m))"
proof -
  let ?T = "Target m" and ?tx = "x + Dx m" and ?ty = "y + Dy m"
  let ?w = "window ?T ?ty ?tx"
  let ?n = "int (length ?w)" and ?S = "sum_list ?w" and ?Q = "(\<Sum>v\<leftarrow>?w. v * v)"
  have wx: "wrap64 ?tx = ?tx" and wy: "wrap64 ?ty = ?ty"
    using x y by (simp_all add: wrap64_id)
  have ne: "?w \<noteq> []"
    using centre_in_window [OF inside] by auto
  then have n: "0 < ?n" "?n \<le> 121"
    using length_window [of ?T ?ty ?tx] by simp_all
  have bv: "\<forall>v \<in> set ?w. \<bar>v\<bar> \<le> 255"
    using window_valid [OF valid] by fastforce
  have S: "\<bar>?S\<bar> \<le> 255 * 121"
    using abs_sum_list_le [OF bv] n by simp
  have Q: "0 \<le> ?Q" "?Q \<le> 65025 * 121"
    using sum_squares_le [OF bv] n by simp_all
  let ?a = "?S sdiv ?n"
  have a: "\<bar>?a\<bar> \<le> 255 * 121"
    using abs_sdiv_le [OF n(1), of ?S] S by linarith
  have "\<bar>?a\<bar> * \<bar>?a\<bar> \<le> (255 * 121) * (255 * 121)"
    using a by (intro mult_mono) simp_all
  then have aa: "0 \<le> ?a * ?a" "?a * ?a \<le> 952031025"
    by (simp_all add: abs_mult_self_eq)
  have w1: "wrap64 (?a * ?a) = ?a * ?a"
  proof (rule wrap64_id)
    have "(0 :: int) \<le> 2 ^ 63" by simp
    with aa(1) show "- (2 ^ 63) \<le> ?a * ?a" by linarith
    have "(952031025 :: int) < 2 ^ 63" by simp
    with aa(2) show "?a * ?a < 2 ^ 63" by linarith
  qed
  have Qn: "?Q sdiv ?n = ?Q div ?n"
    using n Q by (simp add: signed_divide_int_def sgn_if)
  have qd: "0 \<le> ?Q div ?n" "?Q div ?n \<le> 65025 * 121"
  proof -
    show "0 \<le> ?Q div ?n" using n Q by (simp add: pos_imp_zdiv_nonneg_iff)
    have "?Q div ?n \<le> ?Q" using Q(1) n(1) by (rule int_div_le_self)
    with Q show "?Q div ?n \<le> 65025 * 121" by linarith
  qed
  have w2: "wrap64 (?Q sdiv ?n - ?a * ?a) = ?Q sdiv ?n - ?a * ?a"
  proof (rule wrap64_id)
    have "(952031025 :: int) < 2 ^ 63" "(65025 * 121 :: int) < 2 ^ 63" by simp_all
    with aa qd Qn show "- (2 ^ 63) \<le> ?Q sdiv ?n - ?a * ?a" "?Q sdiv ?n - ?a * ?a < 2 ^ 63"
      by linarith+
  qed
  have "target m x y = (word_of_int (?T ! nat ?ty ! nat ?tx), ?Q sdiv ?n - ?a * ?a)"
    using inside set
    by (simp add: target_def Let_def wx wy target_sums_window [OF valid] w1 w2 not_le not_less)
  then show "target m x y = (word_of_int (?T ! nat ?ty ! nat ?tx), variance ?w)"
    by (simp add: variance_def power2_eq_square)
  show "0 \<le> variance ?w" using ne by (rule variance_nonneg)
qed

text \<open>
  Claim C8. For a target whose values are brightnesses 0..255 or -1 (unset), and
  coordinates whose sums \<open>x+Dx\<close>, \<open>y+Dy\<close> fit an \<open>int\<close>: \<open>target(x, y)\<close> is
  \<open>(255, -1)\<close> exactly when the place \<open>(x+Dx, y+Dy)\<close> lies outside the target or the
  value there is negative; otherwise it is the value there together with the mean
  of the squares minus the square of the mean (integer quotients) of the target
  values that lie within the 11 by 11 window around the place.
\<close>

theorem target_spec:
  assumes "valid_target (Target m)"
    and "- (2 ^ 63) \<le> x + Dx m" "x + Dx m < 2 ^ 63"
    and "- (2 ^ 63) \<le> y + Dy m" "y + Dy m < 2 ^ 63"
  shows "(target m x y = (255, -1)) =
           (y + Dy m < 0 \<or> y + Dy m \<ge> int (length (Target m)) \<or> x + Dx m < 0 \<or>
            x + Dx m \<ge> int (length (Target m ! nat (y + Dy m))) \<or>
            Target m ! nat (y + Dy m) ! nat (x + Dx m) < 0) \<and>
         (target m x y \<noteq> (255, -1) \<longrightarrow>
            uint (fst (target m x y)) = Target m ! nat (y + Dy m) ! nat (x + Dx m) \<and>
            snd (target m x y) = variance (window (Target m) (y + Dy m) (x + Dx m)))"
proof (cases "y + Dy m < 0 \<or> y + Dy m \<ge> int (length (Target m)) \<or> x + Dx m < 0 \<or>
            x + Dx m \<ge> int (length (Target m ! nat (y + Dy m))) \<or>
            Target m ! nat (y + Dy m) ! nat (x + Dx m) < 0")
  case True
  have "wrap64 (x + Dx m) = x + Dx m" "wrap64 (y + Dy m) = y + Dy m"
    using assms by (simp_all add: wrap64_id)
  with True have "target m x y = (255, -1)"
    by (auto simp: target_def Let_def)
  with True show ?thesis by simp
next
  case False
  then have inside: "0 \<le> y + Dy m" "y + Dy m < int (length (Target m))"
      "0 \<le> x + Dx m" "x + Dx m < int (length (Target m ! nat (y + Dy m)))"
    and set: "0 \<le> Target m ! nat (y + Dy m) ! nat (x + Dx m)"
    by simp_all
  note t = target_inside [OF assms inside set]
  from valid_target_nth [OF assms(1) inside] set
  have v: "0 \<le> Target m ! nat (y + Dy m) ! nat (x + Dx m)"
    "Target m ! nat (y + Dy m) ! nat (x + Dx m) < 2 ^ 8" by simp_all
  have u: "uint (word_of_int (Target m ! nat (y + Dy m) ! nat (x + Dx m)) :: byte)
           = Target m ! nat (y + Dy m) ! nat (x + Dx m)"
    using v by (simp add: uint_word_of_int take_bit_int_eq_self)
  have "snd (target m x y) \<noteq> -1" using t by simp
  then have "target m x y \<noteq> (255, -1)" by auto
  with False t u show ?thesis by simp
qed

theorem target_spec_witness:
  "valid_target (Target example_image) \<and>
   target example_image 0 0 = (255, -1) \<and>
   Target example_image ! nat (0 + Dy example_image) ! nat (0 + Dx example_image) = -1 \<and>
   target example_image 5 0 = (255, -1) \<and>
   target example_image (-1) (-1) = (0, 13549) \<and>
   variance (window (Target example_image) (-1 + Dy example_image) (-1 + Dx example_image))
     = 13549"
proof -
  have v: "valid_target (Target example_image)"
    by (simp add: valid_target_def example_image_def)
  have d: "Dx example_image = 1" "Dy example_image = 1" by (simp_all add: example_image_def)
  have e: "target example_image 0 0 = (255, -1)" "target example_image 5 0 = (255, -1)"
    "target example_image (-1) (-1) = (0, 13549)"
    "Target example_image ! nat (0 + Dy example_image) ! nat (0 + Dx example_image) = -1"
    by code_simp+
  from target_spec [OF v, of "-1" "-1"] e d
  have "variance (window (Target example_image) (-1 + Dy example_image) (-1 + Dx example_image))
     = 13549" by simp
  moreover from target_spec [OF v, of 0 0] target_spec [OF v, of 5 0] e d
  have "target example_image 0 0 = (255, -1) \<and> target example_image 5 0 = (255, -1)" by simp
  ultimately show ?thesis using v e by simp
qed

section \<open>Pinned columns\<close>

lemma has_map2_xor:
  "has (map2 (XOR) u w) c = (c div 8 < length u \<and> c div 8 < length w \<and> (has u c \<noteq> has w c))"
  by (auto simp: has_def bit_xor_iff)

lemma has_xor_clear:
  "\<not> has u c \<Longrightarrow> \<not> has w c \<Longrightarrow> \<not> has (map2 (XOR) u w) c"
  by (simp add: has_map2_xor)

lemma has_xor_keep:
  "length u \<le> length w \<Longrightarrow> \<not> has w c \<Longrightarrow> has (map2 (XOR) u w) c = has u c"
  by (auto simp: has_def bit_xor_iff)

lemma pinned_subset:
  assumes "pinned b S" "S' \<subseteq> S"
  shows "pinned b S'"
  unfolding pinned_def
proof (intro ballI conjI)
  fix j r assume "j \<in> S'" "r \<in> set (M b)"
  with assms show "\<not> has r j" unfolding pinned_def by blast
next
  fix j assume "j \<in> S'"
  with assms have "j \<in> S" by blast
  with assms(1) obtain k where k: "k < length (Mret b)" "has (Mret b ! k) j"
    "\<forall>k' < length (Mret b). k' \<noteq> k \<longrightarrow> \<not> has (Mret b ! k') j"
    "\<forall>j' \<in> S. j' \<noteq> j \<longrightarrow> \<not> has (Mret b ! k) j'"
    unfolding pinned_def by blast
  from k(4) assms(2) have "\<forall>j' \<in> S'. j' \<noteq> j \<longrightarrow> \<not> has (Mret b ! k) j'" by blast
  with k(1-3) show "\<exists>k < length (Mret b). has (Mret b ! k) j \<and>
      (\<forall>k' < length (Mret b). k' \<noteq> k \<longrightarrow> \<not> has (Mret b ! k') j) \<and>
      (\<forall>j' \<in> S'. j' \<noteq> j \<longrightarrow> \<not> has (Mret b ! k) j')"
    by blast
qed

lemma pinned_empty [simp]: "pinned b {}"
  by (simp add: pinned_def)

lemma pinned_cong:
  "M b' = M b \<Longrightarrow> Mret b' = Mret b \<Longrightarrow> pinned b' S = pinned b S"
  by (simp add: pinned_def)

lemma get_bit_flip:
  assumes "get_bit bs j = Inr cur" "cur \<noteq> v" "v = 0 \<or> v = 1"
    "has bs' j = (\<not> has bs j)" "length bs' = length bs"
  shows "get_bit bs' j = Inr v"
  using assms by (auto simp: get_bit_Inr split: if_splits)

lemma canSet_pins:
  assumes run: "canSet b j v = Inr (True, b')" and pin: "pinned b S"
  shows "j \<notin> S" and "pinned b' (insert j S)"
    and "\<forall>i \<in> S. has (B b') i = has (B b) i"
    and "v = 0 \<or> v = 1 \<Longrightarrow> get_bit (B b') j = Inr v"
    and "length (B b') = length (B b)"
proof -
  from run obtain m saved cur B' b1 where
    scan: "canSet_scan j False (M b) 0 = Inr (True, m)"
    and saved: "canSet_saved j (m ! 0) (Mret b) = Inr saved"
    and cur: "get_bit (B b) j = Inr cur"
    and B': "(if cur \<noteq> v then xor_from (B b) (m ! 0) else Inr (B b)) = Inr B'"
    and chk: "check (b\<lparr>B := B', M := m, Mret := saved\<rparr>) = Inr b1"
    and red: "canSet_reduced j (take (length m - 1) (m[0 := m ! (length m - 1), length m - 1 := m ! 0]))
       = Inr ()"
    and b': "b' = b1\<lparr>M := take (length m - 1) (m[0 := m ! (length m - 1), length m - 1 := m ! 0]),
             Mret := m ! 0 # saved\<rparr>"
    by (rule canSet_TrueE)
  let ?act = "take (length m - 1) (m[0 := m ! (length m - 1), length m - 1 := m ! 0])"
  let ?targ = "m ! 0"
  have b1: "b1 = b\<lparr>B := B', M := m, Mret := saved, Tmp := drop (DataBytes b) B'\<rparr>"
    using chk by (simp add: check_Inr)
  have Bb': "B b' = B'" "M b' = ?act" "Mret b' = ?targ # saved"
    using b' b1 by simp_all
  have mS: "\<forall>r \<in> set m. \<forall>i \<in> S. \<not> has r i"
    using pin by (intro canSet_scan_pred [OF scan]) (auto simp: pinned_def has_xor_clear)
  have pos: "0 < length m"
    using scan canSet_scan_length canSet_scan_found_nonempty by fastforce
  then have targ_in: "?targ \<in> set m" by simp
  have targ_j: "has ?targ j" using scan by (rule canSet_scan_pivot)
  have targ_S: "\<forall>i \<in> S. \<not> has ?targ i" using mS targ_in by blast
  show jS: "j \<notin> S" using targ_j targ_S by blast
  have sv: "saved = map (\<lambda>row. if has row j then map2 (XOR) row ?targ else row) (Mret b)"
    and svlen: "\<forall>row \<in> set (Mret b). has row j \<longrightarrow> length row \<le> length ?targ"
    using saved by (simp_all add: canSet_saved_Inr)
  have sv_j: "\<not> has (saved ! k) j" if "k < length (Mret b)" for k
    using that targ_j by (simp add: sv has_map2_xor)
  have sv_S: "has (saved ! k) i = has (Mret b ! k) i" if "k < length (Mret b)" "i \<in> S" for k i
    using that targ_S svlen by (simp add: sv has_xor_keep)
  have len_sv: "length saved = length (Mret b)" by (simp add: sv)
  have act_sub: "set ?act \<subseteq> set m" by (rule swap_last_take_set)
  have act_j: "\<forall>r \<in> set ?act. \<not> has r j"
    using red by (simp add: canSet_reduced_Inr)
  show "pinned b' (insert j S)"
    unfolding pinned_def
  proof (intro ballI conjI)
    fix c r assume c: "c \<in> insert j S" and r: "r \<in> set (M b')"
    with act_j act_sub mS Bb' show "\<not> has r c" by auto
  next
    fix c assume c: "c \<in> insert j S"
    show "\<exists>k < length (Mret b'). has (Mret b' ! k) c \<and>
            (\<forall>k' < length (Mret b'). k' \<noteq> k \<longrightarrow> \<not> has (Mret b' ! k') c) \<and>
            (\<forall>j' \<in> insert j S. j' \<noteq> c \<longrightarrow> \<not> has (Mret b' ! k) j')"
    proof (cases "c = j")
      case True
      have "has (Mret b' ! 0) c" using True targ_j Bb' by simp
      moreover have "\<forall>k' < length (Mret b'). k' \<noteq> 0 \<longrightarrow> \<not> has (Mret b' ! k') c"
        using True sv_j len_sv Bb' by (auto simp: nth_Cons split: nat.splits)
      moreover have "\<forall>j' \<in> insert j S. j' \<noteq> c \<longrightarrow> \<not> has (Mret b' ! 0) j'"
        using True targ_S Bb' by auto
      ultimately show ?thesis using Bb' by (intro exI [of _ 0]) simp
    next
      case False
      with c have cS: "c \<in> S" by simp
      with pin obtain k where k: "k < length (Mret b)" "has (Mret b ! k) c"
        "\<forall>k' < length (Mret b). k' \<noteq> k \<longrightarrow> \<not> has (Mret b ! k') c"
        "\<forall>j' \<in> S. j' \<noteq> c \<longrightarrow> \<not> has (Mret b ! k) j'"
        unfolding pinned_def by blast
      have 1: "has (Mret b' ! Suc k) c" using k cS sv_S Bb' by simp
      have 2: "\<forall>k' < length (Mret b'). k' \<noteq> Suc k \<longrightarrow> \<not> has (Mret b' ! k') c"
      proof (intro allI impI)
        fix k' assume k': "k' < length (Mret b')" "k' \<noteq> Suc k"
        show "\<not> has (Mret b' ! k') c"
        proof (cases k')
          case 0
          then show ?thesis using targ_S cS Bb' by simp
        next
          case (Suc i)
          with k' len_sv Bb' have "i < length (Mret b)" "i \<noteq> k" by simp_all
          with k(3) sv_S cS Suc Bb' show ?thesis by simp
        qed
      qed
      have 3: "\<forall>j' \<in> insert j S. j' \<noteq> c \<longrightarrow> \<not> has (Mret b' ! Suc k) j'"
        using k sv_j sv_S Bb' by auto
      from k(1) len_sv Bb' have "Suc k < length (Mret b')" by simp
      with 1 2 3 show ?thesis by blast
    qed
  qed
  have keep: "has B' i = has (B b) i" if "\<not> has ?targ i" for i
  proof (cases "cur \<noteq> v")
    case True
    with B' have "length ?targ \<le> length (B b)"
      "B' = map2 (XOR) (take (length ?targ) (B b)) ?targ @ drop (length ?targ) (B b)"
      by (simp_all add: xor_from_Inr)
    with that show ?thesis by (simp add: has_xor_prefix_keep)
  next
    case False
    with B' show ?thesis by simp
  qed
  show "\<forall>i \<in> S. has (B b') i = has (B b) i"
    using keep targ_S Bb' by simp
  show lenB: "length (B b') = length (B b)"
    using B' Bb' by (auto simp: xor_from_Inr split: if_splits)
  show "get_bit (B b') j = Inr v" if v: "v = 0 \<or> v = 1"
  proof (cases "cur \<noteq> v")
    case False
    with B' cur Bb' show ?thesis by simp
  next
    case True
    with B' have l: "length ?targ \<le> length (B b)"
      and e: "B' = map2 (XOR) (take (length ?targ) (B b)) ?targ @ drop (length ?targ) (B b)"
      by (simp_all add: xor_from_Inr)
    from targ_j have "j div 8 < length ?targ" by (simp add: has_def)
    with l e targ_j have h: "has B' j = (\<not> has (B b) j)"
      by (simp add: has_xor_prefix)
    have lb: "length B' = length (B b)" using lenB Bb' by simp
    have "get_bit B' j = Inr v"
      by (rule get_bit_flip [OF cur True v h lb])
    then show ?thesis using Bb' by simp
  qed
qed

lemma reset_pinned:
  assumes run: "reset b j v = Inr b'" and pin: "pinned b S" and j: "j \<in> S"
  shows "pinned b' S" and "\<forall>i \<in> S. i \<noteq> j \<longrightarrow> has (B b') i = has (B b) i"
    and "length (B b') = length (B b)" and "M b' = M b" and "Mret b' = Mret b"
proof -
  have "pinned b' S \<and> (\<forall>i \<in> S. i \<noteq> j \<longrightarrow> has (B b') i = has (B b) i) \<and>
        length (B b') = length (B b) \<and> M b' = M b \<and> Mret b' = Mret b"
  proof (cases "b' = b")
    case True
    with pin show ?thesis by simp
  next
    case False
    with run have "reset_rows b j (Mret b) = Inr b'"
      by (auto simp: reset_def bindE_eq_Inr split: if_splits)
    from reset_rows_Inr [OF this] obtain k where k: "k < length (Mret b)"
      "has (Mret b ! k) j" "length (Mret b ! k) \<le> length (B b)"
      and b': "b' = b\<lparr>B := map2 (XOR) (take (length (Mret b ! k)) (B b)) (Mret b ! k)
                        @ drop (length (Mret b ! k)) (B b)\<rparr>"
      by blast
    from pin j obtain k0 where k0: "k0 < length (Mret b)" "has (Mret b ! k0) j"
      "\<forall>k' < length (Mret b). k' \<noteq> k0 \<longrightarrow> \<not> has (Mret b ! k') j"
      "\<forall>j' \<in> S. j' \<noteq> j \<longrightarrow> \<not> has (Mret b ! k0) j'"
      unfolding pinned_def by blast
    from k k0(3) have "k = k0" by blast
    with k0(4) have "\<forall>i \<in> S. i \<noteq> j \<longrightarrow> \<not> has (Mret b ! k) i" by simp
    with b' k(3) have "\<forall>i \<in> S. i \<noteq> j \<longrightarrow> has (B b') i = has (B b) i"
      by (simp add: has_xor_prefix_keep)
    moreover from b' pin have "pinned b' S" by (simp add: pinned_def)
    ultimately show ?thesis using b' k(3) by simp
  qed
  then show "pinned b' S" and "\<forall>i \<in> S. i \<noteq> j \<longrightarrow> has (B b') i = has (B b) i"
    and "length (B b') = length (B b)" and "M b' = M b" and "Mret b' = Mret b"
    by simp_all
qed

lemma copyOut_fields:
  assumes "copyOut b = Inr b'"
  shows "B b' = B b" "M b' = M b" "Mret b' = Mret b" "DataBytes b' = DataBytes b"
    "CheckBytes b' = CheckBytes b" "RS b' = RS b"
    "bdata b' = copy_bytes (bdata b) (take (DataBytes b) (B b))"
    "cdata b' = copy_bytes (cdata b) (drop (DataBytes b) (B b))"
    "DataBytes b \<le> length (B b)"
  using assms by (auto simp: copyOut_def bindE_eq_Inr check_Inr)

end
